theory Spec2Isabelle
  imports Main "HOL-Library.Word" "HOL-Library.Log_Nat" "HOL-Library.Signed_Division"
begin

unbundle bit_operations_syntax

section \<open>JavaScript numbers\<close>

text \<open>
  A JavaScript \<open>number\<close> is an IEEE-754 binary64 value. The model keeps the finite
  values as rationals and rounds the result of every arithmetic operation to the nearest
  value with a 53-bit significand, ties to the even significand. The exponent is not
  bounded: overflow to an infinity, subnormal values, the sign of zero and NaN are
  outside the model.
\<close>

type_synonym number = rat

definition rne :: "rat \<Rightarrow> int" where
  "rne q = (let f = \<lfloor>q\<rfloor>; d = q - of_int f in
     if d < 1 / 2 then f else if 1 / 2 < d then f + 1
     else if even f then f else f + 1)"

definition ilog2 :: "rat \<Rightarrow> int" where
  "ilog2 x = (if 1 \<le> x then bitlen \<lfloor>x\<rfloor> - 1 else - bitlen (\<lceil>1 / x\<rceil> - 1))"

definition round53 :: "rat \<Rightarrow> number" where
  "round53 x = (if x = 0 then 0 else
     let u = 2 powi (ilog2 \<bar>x\<bar> - 52) in of_int (rne (x / u)) * u)"

definition is_double :: "rat \<Rightarrow> bool" where
  "is_double x \<longleftrightarrow> round53 x = x"

definition js_add :: "number \<Rightarrow> number \<Rightarrow> number" where
  "js_add x y = round53 (x + y)"

definition js_sub :: "number \<Rightarrow> number \<Rightarrow> number" where
  "js_sub x y = round53 (x - y)"

definition js_mul :: "number \<Rightarrow> number \<Rightarrow> number" where
  "js_mul x y = round53 (x * y)"

definition js_div :: "number \<Rightarrow> number \<Rightarrow> number" where
  "js_div x y = round53 (x / y)"

definition js_floor :: "number \<Rightarrow> number" where
  "js_floor x = of_int \<lfloor>x\<rfloor>"

definition js_ceil :: "number \<Rightarrow> number" where
  "js_ceil x = of_int \<lceil>x\<rceil>"

definition isInteger :: "number \<Rightarrow> bool" where
  "isInteger x \<longleftrightarrow> of_int \<lfloor>x\<rfloor> = x"

definition MAX_SAFE_INTEGER :: number where
  "MAX_SAFE_INTEGER = 9007199254740991"

section \<open>The randomizer\<close>

text \<open>
  The randomizer is the only state: a fixed sequence of draws and the position of the
  next one. \<open>next\<close> returns the draw at the position and advances it by one.
\<close>

record randomizer =
  draws :: "nat \<Rightarrow> number"
  pos :: nat

definition next_draw :: "randomizer \<Rightarrow> number \<times> randomizer" where
  "next_draw rz = (draws rz (pos rz), rz\<lparr>pos := Suc (pos rz)\<rparr>)"

section \<open>Errors\<close>

datatype error =
    MultipleOfNotInteger
  | MultipleOfNotPositive
  | RangeExhausted number number
  | InvalidRange number number
  | ConflictingOptions
  | FractionDigitsNotInteger
  | FractionDigitsNegative
  | BigRangeExhausted int int
  | BigInvalidRange int int
  | RomanMinTooSmall number
  | RomanMaxTooLarge number
  | InvalidCidr string

section \<open>NumberModule.int\<close>

record int_options =
  int_min :: "number option"
  int_max :: "number option"
  int_multipleOf :: "number option"

datatype int_arg = IntNum number | IntOpts int_options

definition int_normalize :: "int_arg \<Rightarrow> int_options" where
  "int_normalize a = (case a of
     IntNum n \<Rightarrow> \<lparr>int_min = None, int_max = Some n, int_multipleOf = None\<rparr>
   | IntOpts opts \<Rightarrow> opts)"

definition int_min_of :: "int_arg \<Rightarrow> number" where
  "int_min_of a = (case int_min (int_normalize a) of None \<Rightarrow> 0 | Some v \<Rightarrow> v)"

definition int_max_of :: "int_arg \<Rightarrow> number" where
  "int_max_of a = (case int_max (int_normalize a) of None \<Rightarrow> MAX_SAFE_INTEGER | Some v \<Rightarrow> v)"

definition int_multipleOf_of :: "int_arg \<Rightarrow> number" where
  "int_multipleOf_of a = (case int_multipleOf (int_normalize a) of None \<Rightarrow> 1 | Some v \<Rightarrow> v)"

definition effectiveMin :: "number \<Rightarrow> number \<Rightarrow> number" where
  "effectiveMin mn multipleOf = js_ceil (js_div mn multipleOf)"

definition effectiveMax :: "number \<Rightarrow> number \<Rightarrow> number" where
  "effectiveMax mx multipleOf = js_floor (js_div mx multipleOf)"

definition int_js :: "int_arg \<Rightarrow> randomizer \<Rightarrow> (error + number) \<times> randomizer" where
  "int_js a rz =
    (let mn = int_min_of a;
         mx = int_max_of a;
         multipleOf = int_multipleOf_of a
     in if \<not> isInteger multipleOf then (Inl MultipleOfNotInteger, rz)
        else if multipleOf \<le> 0 then (Inl MultipleOfNotPositive, rz)
        else
          let emin = effectiveMin mn multipleOf;
              emax = effectiveMax mx multipleOf
          in if emin = emax then (Inr (js_mul emin multipleOf), rz)
             else if emax < emin then
               (if mx \<ge> mn then (Inl (RangeExhausted mn mx), rz)
                else (Inl (InvalidRange mn mx), rz))
             else
               let (real, rz') = next_draw rz;
                   delta = js_add (js_sub emax emin) 1
               in (Inr (js_mul (js_floor (js_add (js_mul real delta) emin)) multipleOf), rz'))"

section \<open>NumberModule.float\<close>

text \<open>
  \<open>Math.log10\<close> and the operator \<open>**\<close> are approximated by the engine; the model
  takes both as parameters. A division by a zero factor is outside the model.
  \<open>float_stride\<close> is the part of \<open>float\<close> after the validation of the options.
\<close>

record js_math =
  math_log10 :: "number \<Rightarrow> number"
  math_pow :: "number \<Rightarrow> number \<Rightarrow> number"

record float_options =
  float_min :: "number option"
  float_max :: "number option"
  float_fractionDigits :: "number option"
  float_multipleOf :: "number option"

datatype float_arg = FloatNum number | FloatOpts float_options

definition float_normalize :: "float_arg \<Rightarrow> float_options" where
  "float_normalize a = (case a of
     FloatNum n \<Rightarrow> \<lparr>float_min = None, float_max = Some n,
                    float_fractionDigits = None, float_multipleOf = None\<rparr>
   | FloatOpts opts \<Rightarrow> opts)"

definition float_min_of :: "float_arg \<Rightarrow> number" where
  "float_min_of a = (case float_min (float_normalize a) of None \<Rightarrow> 0 | Some v \<Rightarrow> v)"

definition float_max_of :: "float_arg \<Rightarrow> number" where
  "float_max_of a = (case float_max (float_normalize a) of None \<Rightarrow> 1 | Some v \<Rightarrow> v)"

definition float_stride_of :: "js_math \<Rightarrow> float_arg \<Rightarrow> number option" where
  "float_stride_of M a = (case float_multipleOf (float_normalize a) of
       Some m \<Rightarrow> Some m
     | None \<Rightarrow> (case float_fractionDigits (float_normalize a) of
         None \<Rightarrow> None
       | Some fd \<Rightarrow> Some (math_pow M 10 (- fd))))"

definition float_factor :: "js_math \<Rightarrow> number \<Rightarrow> number" where
  "float_factor M multipleOf =
    (let logPrecision = math_log10 M multipleOf
     in if multipleOf < 1 \<and> isInteger logPrecision
        then math_pow M 10 (- logPrecision)
        else js_div 1 multipleOf)"

definition float_stride ::
  "js_math \<Rightarrow> number \<Rightarrow> number \<Rightarrow> number option \<Rightarrow> randomizer
     \<Rightarrow> (error + number) \<times> randomizer" where
  "float_stride M mn mx multipleOf rz =
    (case multipleOf of
       Some m \<Rightarrow>
         if m \<le> 0 then (Inl MultipleOfNotPositive, rz)
         else
           let factor = float_factor M m
           in (case int_js (IntOpts \<lparr>int_min = Some (js_mul mn factor),
                                     int_max = Some (js_mul mx factor),
                                     int_multipleOf = None\<rparr>) rz of
                 (Inl e, rz') \<Rightarrow> (Inl e, rz')
               | (Inr i, rz') \<Rightarrow> (Inr (js_div i factor), rz'))
     | None \<Rightarrow>
         let (real, rz') = next_draw rz
         in (Inr (js_add (js_mul real (js_sub mx mn)) mn), rz'))"

definition float_js ::
  "js_math \<Rightarrow> float_arg \<Rightarrow> randomizer \<Rightarrow> (error + number) \<times> randomizer" where
  "float_js M a rz =
    (let mn = float_min_of a;
         mx = float_max_of a;
         fractionDigits = float_fractionDigits (float_normalize a);
         originalMultipleOf = float_multipleOf (float_normalize a);
         multipleOf = float_stride_of M a
     in if mx < mn then (Inl (InvalidRange mn mx), rz)
        else (case fractionDigits of
            Some fd \<Rightarrow>
              if originalMultipleOf \<noteq> None then (Inl ConflictingOptions, rz)
              else if \<not> isInteger fd then (Inl FractionDigitsNotInteger, rz)
              else if fd < 0 then (Inl FractionDigitsNegative, rz)
              else float_stride M mn mx multipleOf rz
          | None \<Rightarrow> float_stride M mn mx multipleOf rz))"

section \<open>NumberModule.bigInt\<close>

text \<open>
  A \<open>bigint\<close> is an \<open>int\<close>; its division truncates towards zero and its remainder has
  the sign of the dividend (\<open>sdiv\<close>, \<open>smod\<close>). The options hold the values after the
  coercion by \<open>BigInt\<close>. The digit generator \<open>faker.string.numeric\<close> is a parameter:
  it gets the length and the randomizer and returns a string.
\<close>

record bigint_options =
  big_min :: "int option"
  big_max :: "int option"
  big_multipleOf :: "int option"

datatype bigint_arg = BigNum int | BigOpts bigint_options

definition bigint_normalize :: "bigint_arg \<Rightarrow> bigint_options" where
  "bigint_normalize a = (case a of
     BigNum n \<Rightarrow> \<lparr>big_min = None, big_max = Some n, big_multipleOf = None\<rparr>
   | BigOpts opts \<Rightarrow> opts)"

definition big_min_of :: "bigint_arg \<Rightarrow> int" where
  "big_min_of a = (case big_min (bigint_normalize a) of None \<Rightarrow> 0 | Some v \<Rightarrow> v)"

definition big_max_of :: "bigint_arg \<Rightarrow> int" where
  "big_max_of a = (case big_max (bigint_normalize a) of
     None \<Rightarrow> big_min_of a + 999999999999999 | Some v \<Rightarrow> v)"

definition big_multipleOf_of :: "bigint_arg \<Rightarrow> int" where
  "big_multipleOf_of a = (case big_multipleOf (bigint_normalize a) of None \<Rightarrow> 1 | Some v \<Rightarrow> v)"

definition is_digit :: "char \<Rightarrow> bool" where
  "is_digit c \<longleftrightarrow> 48 \<le> (of_char c :: nat) \<and> (of_char c :: nat) \<le> 57"

definition digit_val :: "char \<Rightarrow> nat" where
  "digit_val c = of_char c - 48"

definition nat_of_digits :: "string \<Rightarrow> nat" where
  "nat_of_digits s = foldl (\<lambda>acc c. 10 * acc + digit_val c) 0 s"

definition digit_char :: "nat \<Rightarrow> char" where
  "digit_char d = char_of (48 + d)"

fun show_nat :: "nat \<Rightarrow> string" where
  "show_nat n = (if n < 10 then [digit_char n] else show_nat (n div 10) @ [digit_char (n mod 10)])"

declare show_nat.simps [simp del]

definition BigInt_of_string :: "string \<Rightarrow> int option" where
  "BigInt_of_string s = (if list_all is_digit s then Some (int (nat_of_digits s)) else None)"

definition big_effectiveMin :: "int \<Rightarrow> int \<Rightarrow> int" where
  "big_effectiveMin mn multipleOf = mn sdiv multipleOf + (if mn smod multipleOf > 0 then 1 else 0)"

definition big_effectiveMax :: "int \<Rightarrow> int \<Rightarrow> int" where
  "big_effectiveMax mx multipleOf = mx sdiv multipleOf - (if mx smod multipleOf < 0 then 1 else 0)"

datatype exn = FakerError error | SyntaxError string | RangeError

definition bigInt ::
  "(nat \<Rightarrow> randomizer \<Rightarrow> string \<times> randomizer) \<Rightarrow> bigint_arg \<Rightarrow> randomizer
     \<Rightarrow> (exn + int) \<times> randomizer" where
  "bigInt numeric a rz =
    (let mn = big_min_of a;
         mx = big_max_of a;
         multipleOf = big_multipleOf_of a
     in if mx < mn then (Inl (FakerError (BigInvalidRange mn mx)), rz)
        else if multipleOf \<le> 0 then (Inl (FakerError MultipleOfNotPositive), rz)
        else
          let emin = big_effectiveMin mn multipleOf;
              emax = big_effectiveMax mx multipleOf
          in if emin = emax then (Inr (emin * multipleOf), rz)
             else if emax < emin then (Inl (FakerError (BigRangeExhausted mn mx)), rz)
             else
               let delta = emax - emin + 1;
                   (digits, rz') = numeric (length (show_nat (nat delta))) rz
               in (case BigInt_of_string digits of
                     None \<Rightarrow> (Inl (SyntaxError digits), rz')
                   | Some d \<Rightarrow> (Inr ((emin + d smod delta) * multipleOf), rz')))"

section \<open>NumberModule.romanNumeral\<close>

text \<open>
  The remainder \<open>%\<close> of two numbers is exact. \<open>String.prototype.repeat\<close> truncates its
  count and throws a \<open>RangeError\<close> on a negative one.
\<close>

definition js_trunc :: "number \<Rightarrow> int" where
  "js_trunc x = (if 0 \<le> x then \<lfloor>x\<rfloor> else \<lceil>x\<rceil>)"

definition js_rem :: "number \<Rightarrow> number \<Rightarrow> number" where
  "js_rem x y = x - y * of_int (js_trunc (x / y))"

definition string_repeat :: "string \<Rightarrow> number \<Rightarrow> string option" where
  "string_repeat k count =
     (if js_trunc count < 0 then None else Some (concat (replicate (nat (js_trunc count)) k)))"

record roman_options =
  roman_min :: "number option"
  roman_max :: "number option"

datatype roman_arg = RomanNum number | RomanOpts roman_options

definition roman_normalize :: "roman_arg \<Rightarrow> roman_options" where
  "roman_normalize a = (case a of
     RomanNum n \<Rightarrow> \<lparr>roman_min = None, roman_max = Some n\<rparr>
   | RomanOpts opts \<Rightarrow> opts)"

definition DEFAULT_MIN :: number where
  "DEFAULT_MIN = 1"

definition DEFAULT_MAX :: number where
  "DEFAULT_MAX = 3999"

definition roman_min_of :: "roman_arg \<Rightarrow> number" where
  "roman_min_of a = (case roman_min (roman_normalize a) of None \<Rightarrow> DEFAULT_MIN | Some v \<Rightarrow> v)"

definition roman_max_of :: "roman_arg \<Rightarrow> number" where
  "roman_max_of a = (case roman_max (roman_normalize a) of None \<Rightarrow> DEFAULT_MAX | Some v \<Rightarrow> v)"

definition lookup :: "(string \<times> number) list" where
  "lookup = [(''M'', 1000), (''CM'', 900), (''D'', 500), (''CD'', 400), (''C'', 100),
     (''XC'', 90), (''L'', 50), (''XL'', 40), (''X'', 10), (''IX'', 9), (''V'', 5),
     (''IV'', 4), (''I'', 1)]"

fun roman_loop :: "(string \<times> number) list \<Rightarrow> number \<Rightarrow> string \<Rightarrow> exn + string" where
  "roman_loop [] num result = Inr result"
| "roman_loop ((k, v) # rest) num result =
     (case string_repeat k (js_floor (js_div num v)) of
        None \<Rightarrow> Inl RangeError
      | Some s \<Rightarrow> roman_loop rest (js_rem num v) (result @ s))"

definition romanNumeral :: "roman_arg \<Rightarrow> randomizer \<Rightarrow> (exn + string) \<times> randomizer" where
  "romanNumeral a rz =
    (let mn = roman_min_of a;
         mx = roman_max_of a
     in if mn < DEFAULT_MIN then (Inl (FakerError (RomanMinTooSmall mn)), rz)
        else if mx > DEFAULT_MAX then (Inl (FakerError (RomanMaxTooLarge mx)), rz)
        else (case int_js (IntOpts \<lparr>int_min = Some mn, int_max = Some mx,
                                    int_multipleOf = None\<rparr>) rz of
                (Inl e, rz') \<Rightarrow> (Inl (FakerError e), rz')
              | (Inr num, rz') \<Rightarrow> (roman_loop lookup num [], rz')))"

text \<open>
  The greedy encoding in the words of the specification, on natural numbers: each symbol
  of the table is appended \<open>remainder div value\<close> times and the remainder is reduced
  modulo the value.
\<close>

definition roman_table :: "(string \<times> nat) list" where
  "roman_table = [(''M'', 1000), (''CM'', 900), (''D'', 500), (''CD'', 400), (''C'', 100),
     (''XC'', 90), (''L'', 50), (''XL'', 40), (''X'', 10), (''IX'', 9), (''V'', 5),
     (''IV'', 4), (''I'', 1)]"

fun greedy_encoding :: "(string \<times> nat) list \<Rightarrow> nat \<Rightarrow> string" where
  "greedy_encoding [] remainder = []"
| "greedy_encoding ((symbol, val) # table) remainder =
     concat (replicate (remainder div val) symbol) @ greedy_encoding table (remainder mod val)"

section \<open>InternetModule.ipv4\<close>

text \<open>
  The bitwise operators work on 32-bit patterns: \<open>ToInt32\<close> truncates a number and
  reduces it modulo \<open>2 ^ 32\<close>; \<open>>>>\<close> uses the low five bits of its count and yields an
  unsigned number. The regular expression of the source accepts exactly the strings made
  of four groups of one to three digits separated by dots, a slash and one or two digits.
\<close>

datatype IPv4Network = Any | Loopback | PrivateA | PrivateB | PrivateC
  | TestNet1 | TestNet2 | TestNet3 | LinkLocal | Multicast

definition ipv4Networks :: "IPv4Network \<Rightarrow> string" where
  "ipv4Networks n = (case n of
     Any \<Rightarrow> ''0.0.0.0/0''
   | Loopback \<Rightarrow> ''127.0.0.0/8''
   | PrivateA \<Rightarrow> ''10.0.0.0/8''
   | PrivateB \<Rightarrow> ''172.16.0.0/12''
   | PrivateC \<Rightarrow> ''192.168.0.0/16''
   | TestNet1 \<Rightarrow> ''192.0.2.0/24''
   | TestNet2 \<Rightarrow> ''198.51.100.0/24''
   | TestNet3 \<Rightarrow> ''203.0.113.0/24''
   | LinkLocal \<Rightarrow> ''169.254.0.0/16''
   | Multicast \<Rightarrow> ''224.0.0.0/4'')"

record ipv4_options =
  cidrBlock :: "string option"
  network :: "IPv4Network option"

fun split_on :: "char \<Rightarrow> string \<Rightarrow> string list" where
  "split_on c [] = [[]]"
| "split_on c (x # xs) =
     (if x = c then [] # split_on c xs
      else (case split_on c xs of [] \<Rightarrow> [[x]] | w # ws \<Rightarrow> (x # w) # ws))"

definition digits_between :: "nat \<Rightarrow> nat \<Rightarrow> string \<Rightarrow> bool" where
  "digits_between lo hi s \<longleftrightarrow> lo \<le> length s \<and> length s \<le> hi \<and> list_all is_digit s"

definition cidr_regex_test :: "string \<Rightarrow> bool" where
  "cidr_regex_test s =
     (case split_on (CHR ''/'') s of
        [ipText, subnet] \<Rightarrow>
          (case split_on (CHR ''.'') ipText of
             [a, b, c, d] \<Rightarrow> digits_between 1 3 a \<and> digits_between 1 3 b
                \<and> digits_between 1 3 c \<and> digits_between 1 3 d \<and> digits_between 1 2 subnet
           | _ \<Rightarrow> False)
      | _ \<Rightarrow> False)"

definition Number_of_string :: "string \<Rightarrow> number" where
  "Number_of_string s = of_nat (nat_of_digits s)"

definition ToInt32 :: "number \<Rightarrow> 32 word" where
  "ToInt32 x = word_of_int (js_trunc x)"

definition ushr :: "32 word \<Rightarrow> number \<Rightarrow> 32 word" where
  "ushr w count = drop_bit (unat (ToInt32 count AND 31)) w"

definition number_of_uint32 :: "32 word \<Rightarrow> number" where
  "number_of_uint32 w = of_nat (unat w)"

definition subnetMask_of :: "string \<Rightarrow> 32 word" where
  "subnetMask_of cidr = ushr 0xffffffff (Number_of_string (split_on (CHR ''/'') cidr ! 1))"

text \<open>
  The prefix length as a natural number: the digits after the slash, which
  \<open>Number.parseInt(subnet)\<close> reads.
\<close>

definition prefixLength_of :: "string \<Rightarrow> nat" where
  "prefixLength_of cidr = nat_of_digits (split_on (CHR ''/'') cidr ! 1)"

definition rawIp_of :: "string \<Rightarrow> 32 word" where
  "rawIp_of cidr =
    (let raws = map Number_of_string (split_on (CHR ''.'') (split_on (CHR ''/'') cidr ! 0))
     in push_bit 24 (ToInt32 (raws ! 0)) OR push_bit 16 (ToInt32 (raws ! 1))
        OR push_bit 8 (ToInt32 (raws ! 2)) OR ToInt32 (raws ! 3))"

definition networkIp_of :: "string \<Rightarrow> 32 word" where
  "networkIp_of cidr = rawIp_of cidr AND NOT (subnetMask_of cidr)"

fun join_with :: "char \<Rightarrow> string list \<Rightarrow> string" where
  "join_with c [] = []"
| "join_with c [x] = x"
| "join_with c (x # y # ys) = x @ c # join_with c (y # ys)"

definition dotted_quad :: "32 word \<Rightarrow> string" where
  "dotted_quad ip = join_with (CHR ''.'')
     [show_nat (unat (drop_bit 24 ip AND 0xff)), show_nat (unat (drop_bit 16 ip AND 0xff)),
      show_nat (unat (drop_bit 8 ip AND 0xff)), show_nat (unat (ip AND 0xff))]"

definition cidrBlock_of :: "ipv4_options \<Rightarrow> string" where
  "cidrBlock_of options =
    (let net = (case network options of None \<Rightarrow> Any | Some n \<Rightarrow> n)
     in (case cidrBlock options of None \<Rightarrow> ipv4Networks net | Some c \<Rightarrow> c))"

definition ipv4 :: "ipv4_options \<Rightarrow> randomizer \<Rightarrow> (error + string) \<times> randomizer" where
  "ipv4 options rz =
    (let cidr = cidrBlock_of options
     in if \<not> cidr_regex_test cidr then (Inl (InvalidCidr cidr), rz)
        else
          let subnetMask = subnetMask_of cidr;
              networkIp = networkIp_of cidr
          in (case int_js (IntNum (number_of_uint32 subnetMask)) rz of
                (Inl e, rz') \<Rightarrow> (Inl e, rz')
              | (Inr hostOffset, rz') \<Rightarrow>
                  (Inr (dotted_quad (networkIp OR ToInt32 hostOffset)), rz')))"

section \<open>A sample engine\<close>

text \<open>
  The concrete evaluations below need an engine. This one raises to an integer power with
  one rounding, and its \<open>log10\<close> is an integer exactly at the doubles nearest to
  \<open>10 ^ n\<close> for \<open>-3 \<le> n \<le> 3\<close>.
\<close>

definition sample_math :: js_math where
  "sample_math = \<lparr>
     math_log10 = (\<lambda>x. case find (\<lambda>n. round53 (10 powi n) = x) [-3, -2, -1, 0, 1, 2, 3] of
                          Some n \<Rightarrow> of_int n | None \<Rightarrow> 1 / 2),
     math_pow = (\<lambda>b e. round53 (b powi \<lfloor>e\<rfloor>))\<rparr>"

section \<open>Properties of bigInt\<close>

lemma big_effectiveMax_floor:
  assumes "0 < (m::int)" shows "big_effectiveMax mx m = mx div m"
proof -
  have nn: "0 \<le> mx mod m" and lt: "mx mod m < m" using assms by simp_all
  show ?thesis
  proof (cases "sgn mx \<noteq> sgn m \<and> \<not> m dvd mx")
    case True
    then show ?thesis using assms lt
      by (simp add: big_effectiveMax_def signed_divide_int_eq_divide_int signed_modulo_int_eq_modulo_int)
  next
    case False
    have "\<not> mx mod m < 0" using nn by linarith
    with False show ?thesis using assms
      by (auto simp add: big_effectiveMax_def signed_divide_int_eq_divide_int signed_modulo_int_eq_modulo_int
          simp del: pos_mod_sign)
  qed
qed

lemma big_effectiveMin_ceil:
  assumes "0 < (m::int)"
  shows "big_effectiveMin mn m = mn div m + (if m dvd mn then 0 else 1)"
proof -
  have nn: "0 \<le> mn mod m" and lt: "mn mod m < m" using assms by simp_all
  have pos: "\<not> m dvd mn \<Longrightarrow> 0 < mn mod m"
    using nn by (simp add: dvd_eq_mod_eq_0 order_less_le)
  show ?thesis
  proof (cases "sgn mn \<noteq> sgn m \<and> \<not> m dvd mn")
    case True
    have "\<not> m < mn mod m" using lt by linarith
    with True show ?thesis using assms
      by (simp add: big_effectiveMin_def signed_divide_int_eq_divide_int signed_modulo_int_eq_modulo_int)
  next
    case False
    then show ?thesis using assms pos
      by (auto simp add: big_effectiveMin_def signed_divide_int_eq_divide_int signed_modulo_int_eq_modulo_int)
  qed
qed

lemma big_effectiveMin_lower:
  assumes "0 < (m::int)" shows "mn \<le> big_effectiveMin mn m * m"
proof (cases "m dvd mn")
  case True
  then show ?thesis using assms by (simp add: big_effectiveMin_ceil)
next
  case False
  have "mn = mn div m * m + mn mod m" by simp
  moreover have "mn mod m < m" using assms by simp
  ultimately have "mn < mn div m * m + m" by linarith
  then show ?thesis using False assms by (simp add: big_effectiveMin_ceil algebra_simps)
qed

lemma big_effectiveMin_least:
  assumes "0 < (m::int)" and "mn \<le> k * m" shows "big_effectiveMin mn m \<le> k"
proof (cases "m dvd mn")
  case True
  have "mn div m \<le> (k * m) div m" using assms by (intro zdiv_mono1) simp_all
  then show ?thesis using True assms by (simp add: big_effectiveMin_ceil)
next
  case False
  then have "mn \<noteq> k * m" by auto
  then have "mn < k * m" using assms by simp
  moreover have "mn div m * m + mn mod m = mn" by simp
  moreover have "0 \<le> mn mod m" using assms by simp
  ultimately have "mn div m * m < k * m" by linarith
  then have "mn div m < k" using assms by (simp add: mult_less_cancel_right)
  then show ?thesis using False assms by (simp add: big_effectiveMin_ceil)
qed

lemma big_effectiveMax_upper:
  assumes "0 < (m::int)" shows "big_effectiveMax mx m * m \<le> mx"
proof -
  have "mx = mx div m * m + mx mod m" by simp
  moreover have "0 \<le> mx mod m" using assms by simp
  ultimately have "mx div m * m \<le> mx" by linarith
  then show ?thesis using assms by (simp add: big_effectiveMax_floor)
qed

lemma big_effectiveMax_greatest:
  assumes "0 < (m::int)" and "k * m \<le> mx" shows "k \<le> big_effectiveMax mx m"
proof -
  have "(k * m) div m \<le> mx div m" using assms by (intro zdiv_mono1) simp_all
  then show ?thesis using assms by (simp add: big_effectiveMax_floor)
qed

lemma smod_multiple:
  fixes m :: int shows "(k * m) smod m = 0"
  by (simp add: signed_modulo_int_def abs_mult)

lemma smod_nonneg_pos:
  fixes d :: int assumes "0 \<le> d" and "0 < n" shows "d smod n = d mod n"
  using assms by (cases "d = 0") (simp_all add: signed_modulo_int_def sgn_if)

text \<open>
  Claim C5. When \<open>min \<le> max\<close>, \<open>multipleOf > 0\<close>, some multiple of \<open>multipleOf\<close> lies in
  \<open>[min, max]\<close> and the digit generator returns decimal digits, \<open>bigInt\<close> returns a value
  \<open>v\<close> with \<open>min \<le> v \<le> max\<close> and \<open>v % multipleOf = 0\<close>; the remainder corrections make
  \<open>effectiveMin\<close> the ceiling and \<open>effectiveMax\<close> the floor of the exact quotients.
\<close>

theorem bigInt_in_range:
  assumes le: "big_min_of a \<le> big_max_of a" and pos: "0 < big_multipleOf_of a"
    and ex: "\<exists>k. big_min_of a \<le> k * big_multipleOf_of a \<and> k * big_multipleOf_of a \<le> big_max_of a"
    and digits: "\<forall>len r. list_all is_digit (fst (numeric len r))"
  shows "(\<exists>v rz'. bigInt numeric a rz = (Inr v, rz')
           \<and> big_min_of a \<le> v \<and> v \<le> big_max_of a \<and> v smod big_multipleOf_of a = 0)
       \<and> big_effectiveMin (big_min_of a) (big_multipleOf_of a)
           = \<lceil>(of_int (big_min_of a) :: rat) / of_int (big_multipleOf_of a)\<rceil>
       \<and> big_effectiveMax (big_max_of a) (big_multipleOf_of a)
           = \<lfloor>(of_int (big_max_of a) :: rat) / of_int (big_multipleOf_of a)\<rfloor>"
proof -
  let ?mn = "big_min_of a" and ?mx = "big_max_of a" and ?m = "big_multipleOf_of a"
  let ?emin = "big_effectiveMin ?mn ?m" and ?emax = "big_effectiveMax ?mx ?m"
  from ex obtain k where k: "?mn \<le> k * ?m" "k * ?m \<le> ?mx" by blast
  have lo: "?emin \<le> k" using pos k(1) by (rule big_effectiveMin_least)
  have hi: "k \<le> ?emax" using pos k(2) by (rule big_effectiveMax_greatest)
  have emin_lo: "?mn \<le> ?emin * ?m" using pos by (rule big_effectiveMin_lower)
  have emax_hi: "?emax * ?m \<le> ?mx" using pos by (rule big_effectiveMax_upper)
  have fl: "?emax = \<lfloor>(of_int ?mx :: rat) / of_int ?m\<rfloor>"
    using pos by (simp add: big_effectiveMax_floor floor_divide_of_int_eq)
  have "- ((of_int ?mn :: rat) / of_int ?m) = of_int (- ?mn) / of_int ?m" by simp
  then have "\<lceil>(of_int ?mn :: rat) / of_int ?m\<rceil> = - ((- ?mn) div ?m)"
    unfolding ceiling_def by (simp only: floor_divide_of_int_eq)
  also have "\<dots> = ?emin"
    using pos by (simp add: big_effectiveMin_ceil zdiv_zminus1_eq_if dvd_eq_mod_eq_0)
  finally have ce: "?emin = \<lceil>(of_int ?mn :: rat) / of_int ?m\<rceil>" by simp
  have "\<exists>v rz'. bigInt numeric a rz = (Inr v, rz') \<and> ?mn \<le> v \<and> v \<le> ?mx \<and> v smod ?m = 0"
  proof (cases "?emin = ?emax")
    case True
    then have "bigInt numeric a rz = (Inr (?emin * ?m), rz)"
      using le pos by (simp add: bigInt_def Let_def)
    moreover have "?emin * ?m \<le> ?mx" using True emax_hi by simp
    ultimately show ?thesis using emin_lo by (simp add: smod_multiple)
  next
    case False
    then have lt: "?emin < ?emax" using lo hi by linarith
    let ?delta = "?emax - ?emin + 1"
    obtain ds rz' where num: "numeric (length (show_nat (nat ?delta))) rz = (ds, rz')"
      by (cases "numeric (length (show_nat (nat ?delta))) rz")
    have "list_all is_digit ds" using digits num by (metis fst_conv)
    then have parse: "BigInt_of_string ds = Some (int (nat_of_digits ds))"
      by (simp add: BigInt_of_string_def)
    let ?d = "int (nat_of_digits ds)"
    have dpos: "0 < ?delta" using lt by simp
    have off: "?d smod ?delta = ?d mod ?delta" using dpos by (intro smod_nonneg_pos) simp_all
    let ?v = "(?emin + ?d mod ?delta) * ?m"
    have res: "bigInt numeric a rz = (Inr ?v, rz')"
      using le pos False lt num parse off by (simp add: bigInt_def Let_def)
    have o1: "0 \<le> ?d mod ?delta" using dpos by (rule pos_mod_sign)
    have o2: "?d mod ?delta < ?delta" using dpos by (rule pos_mod_bound)
    have "?emin \<le> ?emin + ?d mod ?delta" using o1 by linarith
    moreover have "0 \<le> ?m" using pos by simp
    ultimately have "?emin * ?m \<le> ?v" by (rule mult_right_mono)
    then have v1: "?mn \<le> ?v" using emin_lo by linarith
    have "?emin + ?d mod ?delta \<le> ?emax" using o2 by linarith
    moreover have "0 \<le> ?m" using pos by simp
    ultimately have "?v \<le> ?emax * ?m" by (rule mult_right_mono)
    then have v2: "?v \<le> ?mx" using emax_hi by linarith
    show ?thesis using res v1 v2 by (simp add: smod_multiple)
  qed
  then show ?thesis using ce fl by blast
qed

theorem bigInt_in_range_witness:
  "(\<exists>v rz'. bigInt (\<lambda>len r. (replicate len (CHR ''7''), r))
        (BigOpts \<lparr>big_min = Some 10, big_max = Some 100, big_multipleOf = Some 10\<rparr>)
        \<lparr>draws = (\<lambda>_. 0), pos = 0\<rparr> = (Inr v, rz')
      \<and> 10 \<le> v \<and> v \<le> 100 \<and> v smod 10 = 0)
   \<and> (\<exists>v rz'. bigInt (\<lambda>len r. (replicate len (CHR ''7''), r))
        (BigOpts \<lparr>big_min = Some (-17), big_max = Some (-4), big_multipleOf = Some 5\<rparr>)
        \<lparr>draws = (\<lambda>_. 0), pos = 0\<rparr> = (Inr v, rz')
      \<and> - 17 \<le> v \<and> v \<le> - 4 \<and> v smod 5 = 0)"
proof -
  let ?num = "\<lambda>len (r::randomizer). (replicate len (CHR ''7''), r)"
  let ?a = "BigOpts \<lparr>big_min = Some 10, big_max = Some 100, big_multipleOf = Some 10\<rparr>"
  let ?b = "BigOpts \<lparr>big_min = Some (-17), big_max = Some (-4), big_multipleOf = Some 5\<rparr>"
  have dg: "\<forall>len r. list_all is_digit (fst (?num len r))"
    by (simp add: list_all_iff is_digit_def)
  have a: "big_min_of ?a = 10" "big_max_of ?a = 100" "big_multipleOf_of ?a = 10"
    by (simp_all add: big_min_of_def big_max_of_def big_multipleOf_of_def bigint_normalize_def)
  have b: "big_min_of ?b = - 17" "big_max_of ?b = - 4" "big_multipleOf_of ?b = 5"
    by (simp_all add: big_min_of_def big_max_of_def big_multipleOf_of_def bigint_normalize_def)
  have exa: "\<exists>k. big_min_of ?a \<le> k * big_multipleOf_of ?a \<and> k * big_multipleOf_of ?a \<le> big_max_of ?a"
    unfolding a by (rule exI [of _ 1]) simp
  have exb: "\<exists>k. big_min_of ?b \<le> k * big_multipleOf_of ?b \<and> k * big_multipleOf_of ?b \<le> big_max_of ?b"
    unfolding b by (rule exI [of _ "- 1"]) simp
  have "big_min_of ?a \<le> big_max_of ?a" "0 < big_multipleOf_of ?a" unfolding a by simp_all
  from bigInt_in_range [OF this exa dg] have ra:
    "\<exists>v rz'. bigInt ?num ?a \<lparr>draws = (\<lambda>_. 0), pos = 0\<rparr> = (Inr v, rz')
       \<and> 10 \<le> v \<and> v \<le> 100 \<and> v smod 10 = 0"
    unfolding a by blast
  have "big_min_of ?b \<le> big_max_of ?b" "0 < big_multipleOf_of ?b" unfolding b by simp_all
  from bigInt_in_range [OF this exb dg] have rb:
    "\<exists>v rz'. bigInt ?num ?b \<lparr>draws = (\<lambda>_. 0), pos = 0\<rparr> = (Inr v, rz')
       \<and> - 17 \<le> v \<and> v \<le> - 4 \<and> v smod 5 = 0"
    unfolding b by blast
  show ?thesis using ra rb by blast
qed

section \<open>Properties of int\<close>

text \<open>
  Claim C2. When \<open>multipleOf\<close> is a positive integer and \<open>effectiveMin\<close> equals
  \<open>effectiveMax\<close>, \<open>int\<close> returns \<open>effectiveMin * multipleOf\<close> and leaves the randomizer as
  it was, so any call made afterwards gives what it would have given without this one.
\<close>

theorem int_collapse_no_draw:
  assumes "isInteger (int_multipleOf_of a)" and "0 < int_multipleOf_of a"
    and "effectiveMin (int_min_of a) (int_multipleOf_of a)
           = effectiveMax (int_max_of a) (int_multipleOf_of a)"
  shows "int_js a rz = (Inr (js_mul (effectiveMin (int_min_of a) (int_multipleOf_of a))
                                   (int_multipleOf_of a)), rz)
       \<and> (\<forall>b. int_js b (snd (int_js a rz)) = int_js b rz)"
  using assms by (simp add: int_js_def Let_def)

theorem int_collapse_no_draw_witness:
  "int_js (IntOpts \<lparr>int_min = Some 5, int_max = Some 5, int_multipleOf = None\<rparr>)
      \<lparr>draws = (\<lambda>_. 1 / 2), pos = 0\<rparr> = (Inr 5, \<lparr>draws = (\<lambda>_. 1 / 2), pos = 0\<rparr>)
   \<and> (\<forall>b. int_js b (snd (int_js (IntOpts \<lparr>int_min = Some 5, int_max = Some 5,
          int_multipleOf = None\<rparr>) \<lparr>draws = (\<lambda>_. 1 / 2), pos = 0\<rparr>))
        = int_js b \<lparr>draws = (\<lambda>_. 1 / 2), pos = 0\<rparr>)"
proof -
  let ?a = "IntOpts \<lparr>int_min = Some 5, int_max = Some 5, int_multipleOf = None\<rparr>"
  have 1: "isInteger (int_multipleOf_of ?a)" by code_simp
  have 2: "0 < int_multipleOf_of ?a" by code_simp
  have 3: "effectiveMin (int_min_of ?a) (int_multipleOf_of ?a)
           = effectiveMax (int_max_of ?a) (int_multipleOf_of ?a)" by code_simp
  have 4: "js_mul (effectiveMin (int_min_of ?a) (int_multipleOf_of ?a)) (int_multipleOf_of ?a) = 5"
    by code_simp
  show ?thesis
    using int_collapse_no_draw [OF 1 2 3, of "\<lparr>draws = (\<lambda>_. 1 / 2), pos = 0\<rparr>"] unfolding 4 .
qed

text \<open>
  Claim C4. When \<open>multipleOf\<close> is a positive integer and \<open>effectiveMax < effectiveMin\<close>,
  \<open>int\<close> raises an error and returns no value: \<open>RangeExhausted\<close> when \<open>max \<ge> min\<close>,
  \<open>InvalidRange\<close> when \<open>max < min\<close>.
\<close>

theorem int_empty_range_error:
  assumes "isInteger (int_multipleOf_of a)" and "0 < int_multipleOf_of a"
    and "effectiveMax (int_max_of a) (int_multipleOf_of a)
           < effectiveMin (int_min_of a) (int_multipleOf_of a)"
  shows "(int_max_of a \<ge> int_min_of a \<longrightarrow>
            int_js a rz = (Inl (RangeExhausted (int_min_of a) (int_max_of a)), rz))
       \<and> (int_max_of a < int_min_of a \<longrightarrow>
            int_js a rz = (Inl (InvalidRange (int_min_of a) (int_max_of a)), rz))
       \<and> (\<forall>v. fst (int_js a rz) \<noteq> Inr v)"
  using assms by (auto simp add: int_js_def Let_def)

theorem int_empty_range_error_witness:
  "int_js (IntOpts \<lparr>int_min = Some 1, int_max = Some 1, int_multipleOf = Some 10\<rparr>)
      \<lparr>draws = (\<lambda>_. 1 / 2), pos = 0\<rparr>
     = (Inl (RangeExhausted 1 1), \<lparr>draws = (\<lambda>_. 1 / 2), pos = 0\<rparr>)
   \<and> int_js (IntOpts \<lparr>int_min = Some 10, int_max = Some 1, int_multipleOf = None\<rparr>)
      \<lparr>draws = (\<lambda>_. 1 / 2), pos = 0\<rparr>
     = (Inl (InvalidRange 10 1), \<lparr>draws = (\<lambda>_. 1 / 2), pos = 0\<rparr>)"
proof -
  let ?a = "IntOpts \<lparr>int_min = Some 1, int_max = Some 1, int_multipleOf = Some 10\<rparr>"
  let ?b = "IntOpts \<lparr>int_min = Some 10, int_max = Some 1, int_multipleOf = None\<rparr>"
  have a: "isInteger (int_multipleOf_of ?a)" "0 < int_multipleOf_of ?a"
    "effectiveMax (int_max_of ?a) (int_multipleOf_of ?a)
       < effectiveMin (int_min_of ?a) (int_multipleOf_of ?a)"
    by code_simp+
  have b: "isInteger (int_multipleOf_of ?b)" "0 < int_multipleOf_of ?b"
    "effectiveMax (int_max_of ?b) (int_multipleOf_of ?b)
       < effectiveMin (int_min_of ?b) (int_multipleOf_of ?b)"
    by code_simp+
  have va: "int_min_of ?a = 1" "int_max_of ?a = 1"
    by (simp_all add: int_min_of_def int_max_of_def int_normalize_def)
  have vb: "int_min_of ?b = 10" "int_max_of ?b = 1"
    by (simp_all add: int_min_of_def int_max_of_def int_normalize_def)
  show ?thesis
    using int_empty_range_error [OF a, of "\<lparr>draws = (\<lambda>_. 1 / 2), pos = 0\<rparr>"]
      int_empty_range_error [OF b, of "\<lparr>draws = (\<lambda>_. 1 / 2), pos = 0\<rparr>"]
    unfolding va vb by simp
qed

text \<open>
  Claim C1, at the input where the code leaves the range: with \<open>min = 4\<close>, \<open>max = 6\<close> and
  the draw \<open>1 - 2\<^sup>-\<^sup>5\<^sup>3\<close>, the largest double below 1, the product with \<open>delta = 3\<close> rounds to
  \<open>3 - 2\<^sup>-\<^sup>5\<^sup>1\<close>, the sum with \<open>effectiveMin = 4\<close> is a tie that rounds to 7, and \<open>int\<close>
  returns 7.
\<close>

theorem int_above_max_at_last_draw:
  "fst (int_js (IntOpts \<lparr>int_min = Some 4, int_max = Some 6, int_multipleOf = None\<rparr>)
          \<lparr>draws = (\<lambda>_. 1 - 1 / 2 ^ 53), pos = 0\<rparr>) = Inr 7
   \<and> is_double (1 - 1 / 2 ^ 53) \<and> (0::rat) \<le> 1 - 1 / 2 ^ 53 \<and> (1 - 1 / 2 ^ 53 :: rat) < 1
   \<and> js_mul (1 - 1 / 2 ^ 53) 3 = 3 - 1 / 2 ^ 51
   \<and> js_add (3 - 1 / 2 ^ 51) 4 = 7"
  by code_simp

section \<open>Properties of float\<close>

text \<open>
  Claim C7, as the code has it. When both \<open>multipleOf\<close> and \<open>fractionDigits\<close> are set,
  \<open>float\<close> raises an error and returns no value: \<open>InvalidRange\<close> when \<open>max < min\<close>, which
  is checked first, and \<open>ConflictingOptions\<close> otherwise.
\<close>

theorem float_both_set_error:
  assumes "float_fractionDigits (float_normalize a) \<noteq> None"
    and "float_multipleOf (float_normalize a) \<noteq> None"
  shows "float_js M a rz =
    (if float_max_of a < float_min_of a
     then (Inl (InvalidRange (float_min_of a) (float_max_of a)), rz)
     else (Inl ConflictingOptions, rz))"
  using assms by (auto simp add: float_js_def Let_def split: option.splits)

theorem float_both_set_error_witness:
  "float_js sample_math (FloatOpts \<lparr>float_min = None, float_max = None,
      float_fractionDigits = Some 1, float_multipleOf = Some (round53 (1 / 10))\<rparr>)
      \<lparr>draws = (\<lambda>_. 1 / 2), pos = 0\<rparr>
     = (Inl ConflictingOptions, \<lparr>draws = (\<lambda>_. 1 / 2), pos = 0\<rparr>)"
proof -
  let ?a = "FloatOpts \<lparr>float_min = None, float_max = None,
      float_fractionDigits = Some 1, float_multipleOf = Some (round53 (1 / 10))\<rparr>"
  have 1: "float_fractionDigits (float_normalize ?a) \<noteq> None"
    and 2: "float_multipleOf (float_normalize ?a) \<noteq> None"
    by (simp_all add: float_normalize_def)
  have 3: "\<not> float_max_of ?a < float_min_of ?a"
    by (simp add: float_max_of_def float_min_of_def float_normalize_def)
  show ?thesis using float_both_set_error [OF 1 2, of sample_math "\<lparr>draws = (\<lambda>_. 1 / 2), pos = 0\<rparr>"] 3 by simp
qed

text \<open>
  The claim as the specification states it fails when \<open>max < min\<close>: the range check comes
  before the check of the two options.
\<close>

theorem float_both_set_counterexample:
  "fst (float_js sample_math (FloatOpts \<lparr>float_min = Some 2, float_max = Some 1,
      float_fractionDigits = Some 1, float_multipleOf = Some (round53 (1 / 10))\<rparr>)
      \<lparr>draws = (\<lambda>_. 1 / 2), pos = 0\<rparr>) = Inl (InvalidRange 2 1)
   \<and> fst (float_js sample_math (FloatOpts \<lparr>float_min = Some 2, float_max = Some 1,
      float_fractionDigits = Some 1, float_multipleOf = Some (round53 (1 / 10))\<rparr>)
      \<lparr>draws = (\<lambda>_. 1 / 2), pos = 0\<rparr>) \<noteq> Inl ConflictingOptions"
  by (simp add: float_js_def float_max_of_def float_min_of_def float_normalize_def)

section \<open>Properties of the number arithmetic\<close>

lemma rne_of_int: "rne (of_int n) = n"
  by (simp add: rne_def)

lemma rne_floor_le: "\<lfloor>q\<rfloor> \<le> rne q"
  by (simp add: rne_def Let_def)

lemma rne_le_floor_Suc: "rne q \<le> \<lfloor>q\<rfloor> + 1"
  by (simp add: rne_def Let_def)

lemma rne_mono:
  assumes "q \<le> q'" shows "rne q \<le> rne q'"
proof (cases "\<lfloor>q\<rfloor> = \<lfloor>q'\<rfloor>")
  case True
  then show ?thesis using assms by (auto simp add: rne_def Let_def)
next
  case False
  moreover have "\<lfloor>q\<rfloor> \<le> \<lfloor>q'\<rfloor>" using assms by (rule floor_mono)
  ultimately have "\<lfloor>q\<rfloor> + 1 \<le> \<lfloor>q'\<rfloor>" by linarith
  then show ?thesis using rne_le_floor_Suc [of q] rne_floor_le [of q'] by linarith
qed

lemma rne_minus: "rne (- q) = - rne q"
proof (cases "of_int \<lfloor>q\<rfloor> = q")
  case True
  have qn: "q = of_int \<lfloor>q\<rfloor>" by (rule True [symmetric])
  have "rne (- q) = rne (of_int (- \<lfloor>q\<rfloor>))" by (subst qn) (simp only: of_int_minus)
  also have "\<dots> = - \<lfloor>q\<rfloor>" by (rule rne_of_int)
  also have "\<dots> = - rne (of_int \<lfloor>q\<rfloor>)" by (simp only: rne_of_int)
  also have "\<dots> = - rne q" by (simp only: True)
  finally show ?thesis .
next
  case False
  have "of_int \<lfloor>q\<rfloor> \<le> q" by simp
  with False have lt: "of_int \<lfloor>q\<rfloor> < q" by (rule order_neq_le_trans)
  have ub: "q < of_int \<lfloor>q\<rfloor> + 1" by linarith
  have fl: "\<lfloor>- q\<rfloor> = - \<lfloor>q\<rfloor> - 1"
    by (rule floor_unique) (use lt ub in simp_all)
  define f where "f = \<lfloor>q\<rfloor>"
  define d where "d = q - of_int f"
  have q: "q = of_int f + d" by (simp add: d_def)
  have d: "0 < d" "d < 1" using lt ub by (simp_all add: d_def f_def)
  have 1: "rne q = (if d < 1 / 2 then f else if 1 / 2 < d then f + 1
     else if even f then f else f + 1)"
    by (simp add: rne_def Let_def f_def d_def)
  have "- q - of_int (- f - 1) = 1 - d" by (simp add: q)
  then have 2: "rne (- q) = (if 1 - d < 1 / 2 then - f - 1 else if 1 / 2 < 1 - d then - f
     else if even (- f - 1) then - f - 1 else - f)"
    unfolding rne_def Let_def fl f_def [symmetric] by simp
  show ?thesis unfolding 1 2 using d by (auto simp add: )
qed




lemma ilog2_bounds:
  assumes "0 < x"
  shows "2 powi (ilog2 x) \<le> x \<and> x < 2 powi (ilog2 x + 1)"
proof (cases "1 \<le> x")
  case True
  define n where "n = \<lfloor>x\<rfloor>"
  define b where "b = bitlen n"
  have n1: "1 \<le> n" using True by (simp add: n_def)
  then have npos: "0 < n" by simp
  have bb: "2 ^ nat (b - 1) \<le> n" "n < 2 ^ nat b"
    using bitlen_bounds [OF npos] by (simp_all add: b_def)
  have b1: "1 \<le> b" using npos bitlen_eq_zero_iff [of n] bitlen_nonneg [of n]
    by (simp add: b_def; linarith)
  have il: "ilog2 x = b - 1" using True by (simp add: ilog2_def n_def b_def)
  have p1: "(2::rat) powi (b - 1) = 2 ^ nat (b - 1)" using b1 by (simp add: power_int_def)
  have p2: "(2::rat) powi b = 2 ^ nat b" using b1 by (simp add: power_int_def)
  have "(2::rat) ^ nat (b - 1) = of_int (2 ^ nat (b - 1))" by simp
  also have "\<dots> \<le> of_int n" using bb(1) by (simp only: of_int_le_iff)
  also have "\<dots> \<le> x" by (simp add: n_def)
  finally have lo: "(2::rat) ^ nat (b - 1) \<le> x" .
  have n1': "n + 1 \<le> 2 ^ nat b" using bb(2) by simp
  have "x < of_int (n + 1)" unfolding n_def by simp linarith
  also have "\<dots> \<le> of_int (2 ^ nat b)" using n1' by (simp only: of_int_le_iff)
  also have "\<dots> = (2::rat) ^ nat b" by simp
  finally have hi: "x < (2::rat) ^ nat b" .
  show ?thesis unfolding il using lo hi p1 p2 by simp
next
  case False
  define y where "y = 1 / x"
  define c where "c = \<lceil>y\<rceil>"
  define b where "b = bitlen (c - 1)"
  have y1: "1 < y" using False assms by (simp add: y_def)
  have xy: "x = 1 / y" by (simp add: y_def)
  have ypos: "0 < y" using y1 by simp
  have c2: "2 \<le> c" using y1 unfolding c_def by (simp add: le_ceiling_iff)
  then have cpos: "0 < c - 1" by simp
  have bb: "2 ^ nat (b - 1) \<le> c - 1" "c - 1 < 2 ^ nat b"
    using bitlen_bounds [OF cpos] by (simp_all add: b_def)
  have b1: "1 \<le> b" using cpos bitlen_eq_zero_iff [of "c - 1"] bitlen_nonneg [of "c - 1"]
    by (simp add: b_def; linarith)
  have il: "ilog2 x = - b" using False by (simp add: ilog2_def y_def c_def b_def)
  have cb: "c \<le> 2 ^ nat b" using bb(2) by simp
  have "y \<le> of_int c" by (simp add: c_def)
  also have "\<dots> \<le> of_int (2 ^ nat b)" using cb by (simp only: of_int_le_iff)
  also have "\<dots> = (2::rat) ^ nat b" by simp
  finally have yhi: "y \<le> 2 ^ nat b" .
  have "(2::rat) ^ nat (b - 1) = of_int (2 ^ nat (b - 1))" by simp
  also have "\<dots> \<le> of_int (c - 1)" using bb(1) by (simp only: of_int_le_iff)
  also have "\<dots> < y" unfolding c_def by simp linarith
  finally have ylo: "2 ^ nat (b - 1) < y" .
  have p1: "(2::rat) powi (- b) = 1 / 2 ^ nat b"
    using b1 by (simp add: power_int_def field_simps)
  have "- b + 1 = - (b - 1)" by simp
  then have p2: "(2::rat) powi (- b + 1) = 1 / 2 ^ nat (b - 1)"
    using b1 by (simp add: power_int_def field_simps)
  have lo: "1 / 2 ^ nat b \<le> x" unfolding xy using yhi ypos by (simp add: field_simps)
  have hi: "x < 1 / 2 ^ nat (b - 1)" unfolding xy using ylo ypos by (simp add: field_simps)
  show ?thesis unfolding il p1 p2 using lo hi by simp
qed




lemma two_powi_less_D:
  assumes "(2::rat) powi a < 2 powi b" shows "a < b"
proof (rule ccontr)
  assume "\<not> a < b"
  then have "b \<le> a" by simp
  then have "(2::rat) powi b \<le> 2 powi a" by (rule power_int_increasing) simp
  with assms show False by simp
qed

lemma ilog2_unique:
  assumes "0 < x" and "2 powi e \<le> x" and "x < 2 powi (e + 1)"
  shows "ilog2 x = e"
proof -
  from ilog2_bounds [OF assms(1)]
  have b: "2 powi (ilog2 x) \<le> x" "x < 2 powi (ilog2 x + 1)" by simp_all
  have "(2::rat) powi (ilog2 x) < 2 powi (e + 1)" using b(1) assms(3) by (rule le_less_trans)
  then have 1: "ilog2 x < e + 1" by (rule two_powi_less_D)
  have "(2::rat) powi e < 2 powi (ilog2 x + 1)" using assms(2) b(2) by (rule le_less_trans)
  then have 2: "e < ilog2 x + 1" by (rule two_powi_less_D)
  from 1 2 show ?thesis by simp
qed

lemma ilog2_mono:
  assumes "0 < x" and "x \<le> y" shows "ilog2 x \<le> ilog2 y"
proof -
  have ypos: "0 < y" using assms by simp
  from ilog2_bounds [OF assms(1)] have bx: "2 powi (ilog2 x) \<le> x" by simp
  from ilog2_bounds [OF ypos] have uy: "y < 2 powi (ilog2 y + 1)" by simp
  have "(2::rat) powi (ilog2 x) < 2 powi (ilog2 y + 1)" using bx assms(2) uy by linarith
  then have "ilog2 x < ilog2 y + 1" by (rule two_powi_less_D)
  then show ?thesis by simp
qed

lemma ulp_mult:
  "of_int k * (2::rat) powi (e - 52) = of_int k / 2 ^ 52 * 2 powi e"
  by (simp add: power_int_diff)

lemma round53_pos_eq:
  assumes "0 < x"
  shows "round53 x = of_int (rne (x / 2 powi (ilog2 x - 52))) * 2 powi (ilog2 x - 52)"
  using assms by (simp add: round53_def Let_def)

lemma scaled_bounds:
  assumes "0 < x"
  shows "2 ^ 52 \<le> x / 2 powi (ilog2 x - 52) \<and> x / 2 powi (ilog2 x - 52) < 2 ^ 53"
proof -
  from ilog2_bounds [OF assms]
  have b: "2 powi (ilog2 x) \<le> x" "x < 2 powi (ilog2 x + 1)" by simp_all
  have p: "(0::rat) < 2 powi (ilog2 x)" by simp
  define c :: rat where "c = 2 ^ 52"
  have c: "0 < c" by (simp add: c_def)
  have c1: "1 * c = 2 ^ 52" and c2: "2 * c = 2 ^ 53" by (simp_all add: c_def)
  have e1: "x / 2 powi (ilog2 x - 52) = x / 2 powi (ilog2 x) * c"
    by (simp add: power_int_diff c_def)
  have a1: "1 \<le> x / 2 powi (ilog2 x)" using b(1) p by (simp add: field_simps)
  have lo: "1 * c \<le> x / 2 powi (ilog2 x) * c"
    using a1 by (rule mult_right_mono) (use c in simp)
  have "x < 2 powi (ilog2 x) * 2" using b(2) by (simp add: power_int_add)
  then have a2: "x / 2 powi (ilog2 x) < 2" using p by (simp add: field_simps)
  have hi: "x / 2 powi (ilog2 x) * c < 2 * c"
    using a2 c by (rule mult_strict_right_mono)
  show ?thesis unfolding e1 using lo hi unfolding c1 c2 by (rule conjI)
qed

lemma rne_scaled_bounds:
  assumes "0 < x"
  shows "2 ^ 52 \<le> rne (x / 2 powi (ilog2 x - 52)) \<and> rne (x / 2 powi (ilog2 x - 52)) \<le> 2 ^ 53"
proof -
  let ?q = "x / 2 powi (ilog2 x - 52)"
  from scaled_bounds [OF assms] have b: "2 ^ 52 \<le> ?q" "?q < 2 ^ 53" by simp_all
  have "(of_int (2 ^ 52) :: rat) \<le> ?q" using b(1) by simp
  then have "rne (of_int (2 ^ 52)) \<le> rne ?q" by (rule rne_mono)
  then have lo: "2 ^ 52 \<le> rne ?q" by (simp only: rne_of_int)
  have "?q \<le> of_int (2 ^ 53)" using b(2) by simp
  then have "rne ?q \<le> rne (of_int (2 ^ 53))" by (rule rne_mono)
  then have hi: "rne ?q \<le> 2 ^ 53" by (simp only: rne_of_int)
  show ?thesis using lo hi by simp
qed

lemma round53_pos_bounds:
  assumes "0 < x"
  shows "2 powi (ilog2 x) \<le> round53 x \<and> round53 x \<le> 2 powi (ilog2 x + 1)"
proof -
  let ?k = "rne (x / 2 powi (ilog2 x - 52))"
  from rne_scaled_bounds [OF assms] have b: "2 ^ 52 \<le> ?k" "?k \<le> 2 ^ 53" by simp_all
  have r: "round53 x = of_int ?k / 2 ^ 52 * 2 powi (ilog2 x)"
    by (simp only: round53_pos_eq [OF assms] ulp_mult)
  have "(of_int (2 ^ 52) :: rat) \<le> of_int ?k" using b(1) by (simp only: of_int_le_iff)
  then have "(1::rat) \<le> of_int ?k / 2 ^ 52" by simp
  then have lo: "1 * 2 powi (ilog2 x) \<le> of_int ?k / 2 ^ 52 * (2::rat) powi (ilog2 x)"
    by (rule mult_right_mono) simp
  have "(of_int ?k :: rat) \<le> of_int (2 ^ 53)" using b(2) by (simp only: of_int_le_iff)
  then have "(of_int ?k :: rat) / 2 ^ 52 \<le> 2" by simp
  then have hi: "of_int ?k / 2 ^ 52 * (2::rat) powi (ilog2 x) \<le> 2 * 2 powi (ilog2 x)"
    by (rule mult_right_mono) simp
  show ?thesis unfolding r using lo hi by (simp add: power_int_add)
qed

lemma round53_zero: "round53 0 = 0"
  by (simp add: round53_def)

lemma round53_minus: "round53 (- x) = - round53 x"
proof (cases "x = 0")
  case True
  then show ?thesis by (simp add: round53_def)
next
  case False
  have "(- x) / 2 powi (ilog2 \<bar>x\<bar> - 52) = - (x / 2 powi (ilog2 \<bar>x\<bar> - 52))" by simp
  then show ?thesis using False by (simp add: round53_def Let_def rne_minus)
qed

lemma round53_pos: "0 < x \<Longrightarrow> 0 < round53 x"
proof -
  assume a: "0 < x"
  have "(0::rat) < 2 powi (ilog2 x)" by simp
  also have "\<dots> \<le> round53 x" using round53_pos_bounds [OF a] by simp
  finally show ?thesis .
qed

lemma round53_mono_pos:
  assumes "0 < x" and "x \<le> y" shows "round53 x \<le> round53 y"
proof -
  have ypos: "0 < y" using assms by simp
  have le: "ilog2 x \<le> ilog2 y" using assms by (rule ilog2_mono)
  show ?thesis
  proof (cases "ilog2 x = ilog2 y")
    case True
    have "0 < (2::rat) powi (ilog2 y - 52)" by simp
    then have "x / 2 powi (ilog2 y - 52) \<le> y / 2 powi (ilog2 y - 52)"
      using assms(2) by (simp add: divide_right_mono)
    then have "rne (x / 2 powi (ilog2 y - 52)) \<le> rne (y / 2 powi (ilog2 y - 52))"
      by (rule rne_mono)
    then have "(of_int (rne (x / 2 powi (ilog2 y - 52))) :: rat)
        \<le> of_int (rne (y / 2 powi (ilog2 y - 52)))" by (simp only: of_int_le_iff)
    then have "of_int (rne (x / 2 powi (ilog2 y - 52))) * (2::rat) powi (ilog2 y - 52)
        \<le> of_int (rne (y / 2 powi (ilog2 y - 52))) * 2 powi (ilog2 y - 52)"
      by (rule mult_right_mono) simp
    then show ?thesis
      by (simp only: round53_pos_eq [OF assms(1)] round53_pos_eq [OF ypos] True)
  next
    case False
    then have "ilog2 x + 1 \<le> ilog2 y" using le by simp
    then have "(2::rat) powi (ilog2 x + 1) \<le> 2 powi (ilog2 y)"
      by (rule power_int_increasing) simp
    moreover have "round53 x \<le> 2 powi (ilog2 x + 1)"
      using round53_pos_bounds [OF assms(1)] by simp
    moreover have "2 powi (ilog2 y) \<le> round53 y"
      using round53_pos_bounds [OF ypos] by simp
    ultimately show ?thesis by linarith
  qed
qed

lemma round53_mono:
  assumes "x \<le> y" shows "round53 x \<le> round53 y"
proof -
  consider "0 < x" | "x \<le> 0" "0 \<le> y" | "y < 0" by linarith
  then show ?thesis
  proof cases
    case 1
    then show ?thesis using assms by (rule round53_mono_pos)
  next
    case 2
    have "round53 x \<le> 0"
    proof (cases "x = 0")
      case True then show ?thesis by (simp add: round53_zero)
    next
      case False
      then have "0 < - x" using 2 by simp
      then have "0 < round53 (- x)" by (rule round53_pos)
      then show ?thesis by (simp add: round53_minus)
    qed
    moreover have "0 \<le> round53 y"
    proof (cases "y = 0")
      case True then show ?thesis by (simp add: round53_zero)
    next
      case False
      then have "0 < y" using 2 by simp
      then have "0 < round53 y" by (rule round53_pos)
      then show ?thesis by simp
    qed
    ultimately show ?thesis by linarith
  next
    case 3
    then have "0 < - y" "- y \<le> - x" using assms by simp_all
    then have "round53 (- y) \<le> round53 (- x)" by (rule round53_mono_pos)
    then show ?thesis by (simp add: round53_minus)
  qed
qed




lemma round53_exact_pos:
  assumes "0 < n" and "n < 2 ^ 53"
  shows "round53 (of_int n * 2 powi j) = of_int n * 2 powi j"
proof -
  define x :: rat where "x = of_int n * 2 powi j"
  have npos: "(0::rat) < of_int n" using assms(1) by simp
  have xpos: "0 < x" unfolding x_def using npos by (simp add: zero_less_mult_iff)
  define e where "e = ilog2 x"
  from ilog2_bounds [OF xpos] have lo: "2 powi e \<le> x" by (simp add: e_def)
  have "(of_int n :: rat) < of_int (2 ^ 53)" using assms(2) by (simp only: of_int_less_iff)
  then have "(of_int n :: rat) < 2 powi 53" by simp
  then have "x < 2 powi 53 * 2 powi j" unfolding x_def
    by (rule mult_strict_right_mono) simp
  then have "x < 2 powi (53 + j)" by (simp add: power_int_add)
  with lo have "(2::rat) powi e < 2 powi (53 + j)" by (rule le_less_trans)
  then have "e < 53 + j" by (rule two_powi_less_D)
  then have k: "0 \<le> j - (e - 52)" by simp
  have "x / 2 powi (e - 52) = of_int n * 2 powi (j - (e - 52))"
    unfolding x_def by (simp add: power_int_diff)
  also have "\<dots> = of_int n * 2 ^ nat (j - (e - 52))" using k by (simp add: power_int_def)
  also have "\<dots> = of_int (n * 2 ^ nat (j - (e - 52)))" by simp
  finally have q: "x / 2 powi (e - 52) = of_int (n * 2 ^ nat (j - (e - 52)))" .
  have "round53 x = of_int (rne (x / 2 powi (e - 52))) * 2 powi (e - 52)"
    unfolding e_def by (rule round53_pos_eq [OF xpos])
  also have "\<dots> = x / 2 powi (e - 52) * 2 powi (e - 52)"
    by (simp only: q rne_of_int)
  also have "\<dots> = x" by simp
  finally show ?thesis unfolding x_def .
qed

lemma round53_exact:
  assumes "\<bar>n\<bar> < 2 ^ 53"
  shows "round53 (of_int n * 2 powi j) = of_int n * 2 powi j"
proof -
  consider "n = 0" | "0 < n" | "n < 0" by linarith
  then show ?thesis
  proof cases
    case 1
    then show ?thesis by (simp add: round53_zero)
  next
    case 2
    then show ?thesis using assms by (intro round53_exact_pos) simp_all
  next
    case 3
    then have "0 < - n" "- n < 2 ^ 53" using assms by simp_all
    then have "round53 (of_int (- n) * 2 powi j) = of_int (- n) * 2 powi j"
      by (rule round53_exact_pos)
    then have "round53 (- (of_int n * 2 powi j)) = - (of_int n * 2 powi j)" by simp
    then show ?thesis by (simp only: round53_minus neg_equal_iff_equal)
  qed
qed

lemma round53_repr_pos:
  assumes "0 < x"
  shows "\<exists>n j. \<bar>n\<bar> < 2 ^ 53 \<and> round53 x = of_int n * 2 powi j"
proof -
  let ?k = "rne (x / 2 powi (ilog2 x - 52))"
  from rne_scaled_bounds [OF assms] have b: "2 ^ 52 \<le> ?k" "?k \<le> 2 ^ 53" by simp_all
  have r: "round53 x = of_int ?k * 2 powi (ilog2 x - 52)" by (rule round53_pos_eq [OF assms])
  show ?thesis
  proof (cases "?k = 2 ^ 53")
    case True
    have p: "(2::rat) powi (ilog2 x - 52 + 1) = 2 powi (ilog2 x - 52) * 2 powi 1"
      by (rule power_int_add) simp
    have "round53 x = of_int (2 ^ 52) * 2 powi (ilog2 x - 52 + 1)"
      unfolding r True p by simp
    moreover have "\<bar>2 ^ 52 :: int\<bar> < 2 ^ 53" by simp
    ultimately show ?thesis by blast
  next
    case False
    then have "\<bar>?k\<bar> < 2 ^ 53" using b by simp
    with r show ?thesis by blast
  qed
qed

lemma round53_repr: "\<exists>n j. \<bar>n\<bar> < 2 ^ 53 \<and> round53 x = of_int n * 2 powi j"
proof -
  consider "x = 0" | "0 < x" | "x < 0" by linarith
  then show ?thesis
  proof cases
    case 1
    have "\<bar>0::int\<bar> < 2 ^ 53 \<and> round53 x = of_int 0 * 2 powi 0" using 1 by (simp add: round53_zero)
    then show ?thesis by blast
  next
    case 2
    then show ?thesis by (rule round53_repr_pos)
  next
    case 3
    then have "0 < - x" by simp
    from round53_repr_pos [OF this] obtain n j
      where nj: "\<bar>n\<bar> < 2 ^ 53" "round53 (- x) = of_int n * 2 powi j" by blast
    have "round53 x = of_int (- n) * 2 powi j" using nj(2) by (simp add: round53_minus)
    moreover have "\<bar>- n\<bar> < 2 ^ 53" using nj(1) by simp
    ultimately show ?thesis by blast
  qed
qed

lemma round53_idem: "round53 (round53 x) = round53 x"
proof -
  from round53_repr [of x] obtain n j
    where nj: "\<bar>n\<bar> < 2 ^ 53" "round53 x = of_int n * 2 powi j" by blast
  show ?thesis unfolding nj(2) using nj(1) by (rule round53_exact)
qed

lemma is_double_round53: "is_double (round53 x)"
  by (simp add: is_double_def round53_idem)

lemma is_double_iff:
  "is_double x \<longleftrightarrow> (\<exists>n j. \<bar>n\<bar> < 2 ^ 53 \<and> x = of_int n * 2 powi j)"
proof
  assume "is_double x"
  then have "round53 x = x" by (simp add: is_double_def)
  with round53_repr [of x] show "\<exists>n j. \<bar>n\<bar> < 2 ^ 53 \<and> x = of_int n * 2 powi j" by simp
next
  assume "\<exists>n j. \<bar>n\<bar> < 2 ^ 53 \<and> x = of_int n * 2 powi j"
  then obtain n j where nj: "\<bar>n\<bar> < 2 ^ 53" "x = of_int n * 2 powi j" by blast
  show "is_double x" unfolding is_double_def nj(2) using nj(1) by (rule round53_exact)
qed

lemma is_double_of_int:
  assumes "\<bar>n\<bar> < 2 ^ 53" shows "is_double (of_int n)"
proof -
  have "of_int n = (of_int n :: rat) * 2 powi 0" by simp
  with assms show ?thesis unfolding is_double_iff by blast
qed

lemma round53_of_int:
  assumes "\<bar>n\<bar> < 2 ^ 53" shows "round53 (of_int n) = of_int n"
  using is_double_of_int [OF assms] by (simp add: is_double_def)

lemma is_double_scale:
  assumes "is_double x" shows "is_double (x * 2 powi k)"
proof -
  from assms obtain n j where nj: "\<bar>n\<bar> < 2 ^ 53" "x = of_int n * 2 powi j"
    unfolding is_double_iff by blast
  have "x * 2 powi k = of_int n * 2 powi (j + k)" unfolding nj(2) by (simp add: power_int_add)
  with nj(1) show ?thesis unfolding is_double_iff by blast
qed

section \<open>Properties of ipv4\<close>

lemma mask_word: "(0xffffffff :: 32 word) = mask 32"
  by (simp add: mask_eq_exp_minus_1)

lemma and_31_le: "unat ((w :: 32 word) AND 31) \<le> 31"
proof -
  have "w AND 31 \<le> 31" by (rule word_and_le1)
  then have "unat (w AND 31) \<le> unat (31 :: 32 word)" by (simp only: word_le_nat_alt)
  then show ?thesis by simp
qed

lemma ushr_ones: "ushr 0xffffffff count = mask (32 - unat (ToInt32 count AND 31))"
  unfolding ushr_def mask_word by (rule bit_word_eqI) (auto simp add: bit_simps)

lemma subnetMask_of_mask:
  "\<exists>p. 1 \<le> p \<and> p \<le> 32 \<and> subnetMask_of c = mask p"
proof -
  let ?k = "unat (ToInt32 (Number_of_string (split_on (CHR ''/'') c ! 1)) AND 31)"
  have "?k \<le> 31" by (rule and_31_le)
  then have "1 \<le> 32 - ?k \<and> 32 - ?k \<le> 32" by simp
  moreover have "subnetMask_of c = mask (32 - ?k)"
    unfolding subnetMask_of_def by (rule ushr_ones)
  ultimately show ?thesis by blast
qed

lemma number_of_mask:
  assumes "p \<le> 32"
  shows "number_of_uint32 (mask p) = of_int (2 ^ p - 1)"
proof -
  have "uint (mask p :: 32 word) = (mask (min LENGTH(32) p) :: int)" by (rule uint_mask_eq)
  also have "\<dots> = 2 ^ p - 1" using assms by (simp add: min_def mask_eq_exp_minus_1)
  finally have "uint (mask p :: 32 word) = 2 ^ p - 1" .
  moreover have "(of_nat (unat (mask p :: 32 word)) :: rat) = of_int (uint (mask p :: 32 word))"
    by simp
  ultimately show ?thesis unfolding number_of_uint32_def by simp
qed

lemma js_floor_of_int: "js_floor (of_int n) = of_int n"
  by (simp add: js_floor_def)

lemma js_ceil_of_int: "js_ceil (of_int n) = of_int n"
  by (simp add: js_ceil_def)

lemma int_js_IntNum:
  assumes "1 \<le> N" and "N < 2 ^ 52"
  shows "int_js (IntNum (of_int N)) rz =
     (Inr (js_mul (js_floor (js_add (js_mul (draws rz (pos rz)) (of_int (N + 1))) 0)) 1),
      rz\<lparr>pos := Suc (pos rz)\<rparr>)"
proof -
  let ?a = "IntNum (of_int N)"
  have a: "int_min_of ?a = 0" "int_max_of ?a = of_int N" "int_multipleOf_of ?a = 1"
    by (simp_all add: int_min_of_def int_max_of_def int_multipleOf_of_def int_normalize_def)
  have absN: "\<bar>N\<bar> < 2 ^ 53" "\<bar>N + 1\<bar> < 2 ^ 53" using assms by simp_all
  have rN: "round53 (of_int N) = of_int N" using absN(1) by (rule round53_of_int)
  have rN1: "round53 (of_int (N + 1)) = of_int (N + 1)" using absN(2) by (rule round53_of_int)
  have emin: "effectiveMin 0 1 = 0"
    by (simp add: effectiveMin_def js_div_def round53_zero js_ceil_def)
  have emax: "effectiveMax (of_int N) 1 = of_int N"
    by (simp add: effectiveMax_def js_div_def rN js_floor_def)
  have delta: "js_add (js_sub (of_int N) 0) 1 = of_int (N + 1)"
    using rN1 by (simp add: js_add_def js_sub_def rN)
  have ne: "(0::rat) \<noteq> of_int N" and nl: "\<not> (of_int N :: rat) < 0" using assms(1) by simp_all
  have int1: "isInteger 1" by (simp add: isInteger_def)
  show ?thesis
    unfolding int_js_def a Let_def emin emax delta next_draw_def
    using ne nl int1 by simp
qed




lemma round53_add_zero: "js_add (round53 x) 0 = round53 x"
  by (simp add: js_add_def round53_idem)

lemma hostOffset_value:
  assumes d: "is_double r" and r0: "0 \<le> r" and r1: "r < 1" and p: "p \<le> 32"
  shows "js_mul (js_floor (js_add (js_mul r (of_int (2 ^ p - 1 + 1))) 0)) 1 = of_int \<lfloor>r * 2 ^ p\<rfloor>
       \<and> 0 \<le> \<lfloor>r * 2 ^ p\<rfloor> \<and> \<lfloor>r * 2 ^ p\<rfloor> \<le> 2 ^ p - 1"
proof -
  have pw: "(2::rat) powi int p = 2 ^ p" by simp
  have "is_double (r * 2 powi int p)" using d by (rule is_double_scale)
  then have ex: "round53 (r * 2 ^ p) = r * 2 ^ p" unfolding pw by (simp add: is_double_def)
  have m: "js_mul r (of_int (2 ^ p - 1 + 1)) = r * 2 ^ p"
    by (simp add: js_mul_def ex)
  have a: "js_add (r * 2 ^ p) 0 = r * 2 ^ p" by (simp add: js_add_def ex)
  define h where "h = \<lfloor>r * 2 ^ p\<rfloor>"
  have nn: "0 \<le> r * 2 ^ p" using r0 by simp
  then have h0: "0 \<le> h" unfolding h_def by simp
  have "r * 2 ^ p < 1 * 2 ^ p" using r1 by (intro mult_strict_right_mono) simp_all
  then have "r * 2 ^ p < of_int (2 ^ p)" by simp
  then have "h < 2 ^ p" unfolding h_def by (simp only: floor_less_iff)
  then have h1: "h \<le> 2 ^ p - 1" by simp
  have "(2::int) ^ p \<le> 2 ^ 32" using p by (intro power_increasing) simp_all
  then have c32: "(2::int) ^ p \<le> 4294967296" by simp
  have "\<bar>h\<bar> < 9007199254740992" using h0 h1 c32 by linarith
  then have "\<bar>h\<bar> < 2 ^ 53" by simp
  then have "round53 (of_int h) = of_int h" by (rule round53_of_int)
  then have f: "js_mul (js_floor (r * 2 ^ p)) 1 = of_int h"
    by (simp add: js_mul_def js_floor_def h_def)
  show ?thesis unfolding m a f using h0 h1 unfolding h_def by simp
qed

lemma ToInt32_of_int: "ToInt32 (of_int h) = word_of_int h"
  by (simp add: ToInt32_def js_trunc_def)

lemma or_bounds:
  fixes net w m :: "32 word"
  assumes nm: "net AND m = 0" and wm: "w AND m = w"
  shows "net \<le> net OR w \<and> net OR w \<le> net OR m"
proof -
  have "w \<le> m" by (subst wm [symmetric]) (rule word_and_le1)
  then have le: "uint w \<le> uint m" by (simp only: word_le_def)
  have "net AND w = (net AND m) AND w" by (subst wm [symmetric]) (simp add: ac_simps)
  then have nw: "net AND w = 0" by (simp add: nm)
  have "uint net AND uint w = uint (net AND w)" by (simp only: uint_and)
  then have 1: "uint net AND uint w = 0" by (simp add: nw)
  have "uint net AND uint m = uint (net AND m)" by (simp only: uint_and)
  then have 2: "uint net AND uint m = 0" by (simp add: nm)
  have a: "uint (net OR w) = uint net + uint w"
    by (simp only: uint_or disjunctive_add_eq_or [OF 1])
  have b: "uint (net OR m) = uint net + uint m"
    by (simp only: uint_or disjunctive_add_eq_or [OF 2])
  have "net OR w \<le> net OR m" unfolding word_le_def a b using le by simp
  then show ?thesis by (simp add: le_word_or2)
qed

lemma networkIp_and_mask: "networkIp_of c AND subnetMask_of c = 0"
  by (simp add: networkIp_of_def and.assoc)

lemma host_and_mask:
  assumes "0 \<le> h" and "h \<le> 2 ^ p - 1" and "p \<le> 32"
  shows "(word_of_int h :: 32 word) AND mask p = word_of_int h"
proof -
  have "(2::int) ^ p \<le> 2 ^ 32" using assms(3) by (intro power_increasing) simp_all
  then have "h < 2 ^ 32" using assms(2) by simp
  then have "uint (word_of_int h :: 32 word) = h"
    using assms(1) by (simp add: uint_word_of_int_eq take_bit_int_eq_self)
  then have "uint (word_of_int h :: 32 word) < 2 ^ p" using assms(2) by simp
  then show ?thesis by (simp only: mask_eq_iff)
qed




lemma unat_and_31: "unat ((of_nat n :: 32 word) AND 31) = n mod 32"
proof -
  have "(31 :: 32 word) = mask 5" by (simp add: mask_eq_exp_minus_1)
  then have "(of_nat n :: 32 word) AND 31 = take_bit 5 (of_nat n)"
    by (simp only: take_bit_eq_mask)
  then have "unat ((of_nat n :: 32 word) AND 31) = take_bit 5 (unat (of_nat n :: 32 word))"
    by (simp only: unsigned_take_bit_eq)
  also have "\<dots> = (n mod 2 ^ 32) mod 2 ^ 5"
    by (simp add: take_bit_eq_mod unat_of_nat)
  also have "\<dots> = n mod 2 ^ 5"
    by (rule mod_mod_cancel) simp
  finally show ?thesis by simp
qed





lemma ipv4_int_call:
  "\<exists>p. 1 \<le> p \<and> p \<le> 32 \<and> subnetMask_of c = mask p
     \<and> int_js (IntNum (number_of_uint32 (subnetMask_of c))) rz =
        (Inr (js_mul (js_floor (js_add (js_mul (draws rz (pos rz)) (of_int (2 ^ p - 1 + 1))) 0)) 1),
         rz\<lparr>pos := Suc (pos rz)\<rparr>)"
proof -
  from subnetMask_of_mask [of c] obtain p
    where p: "1 \<le> p" "p \<le> 32" "subnetMask_of c = mask p" by blast
  have n: "number_of_uint32 (subnetMask_of c) = of_int (2 ^ p - 1)"
    unfolding p(3) using p(2) by (rule number_of_mask)
  have "(2::int) ^ 1 \<le> 2 ^ p" using p(1) by (intro power_increasing) simp_all
  then have N1: "1 \<le> (2::int) ^ p - 1" by simp
  have "(2::int) ^ p \<le> 2 ^ 32" using p(2) by (intro power_increasing) simp_all
  then have "(2::int) ^ p \<le> 4294967296" by simp
  then have "(2::int) ^ p - 1 < 4503599627370496" by linarith
  then have N2: "(2::int) ^ p - 1 < 2 ^ 52" by simp
  show ?thesis using p int_js_IntNum [OF N1 N2, of rz] unfolding n by blast
qed

lemma ipv4_succeeds:
  assumes "cidr_regex_test (cidrBlock_of options)"
  shows "\<exists>s rz'. ipv4 options rz = (Inr s, rz')"
proof -
  from ipv4_int_call [of "cidrBlock_of options" rz] obtain v rz'
    where "int_js (IntNum (number_of_uint32 (subnetMask_of (cidrBlock_of options)))) rz = (Inr v, rz')"
    by blast
  then show ?thesis using assms by (simp add: ipv4_def Let_def)
qed


lemma ushr_mod_32: "ushr w (of_nat n) = ushr w (of_nat (n mod 32))"
proof -
  have t: "ToInt32 (of_nat k) = (of_nat k :: 32 word)" for k
    using ToInt32_of_int [of "int k"] by simp
  have "unat ((of_nat (n mod 32) :: 32 word) AND 31) = n mod 32 mod 32" by (rule unat_and_31)
  then show ?thesis by (simp add: ushr_def t unat_and_31)
qed




text \<open>
  The mask \<open>0xffffffff >>> n\<close> keeps \<open>32 - n mod 32\<close> low bits, and the host offset that
  \<open>int\<close> draws below it stays inside the block.
\<close>

lemma ushr_ones_mod_32: "ushr 0xffffffff (of_nat n) = mask (32 - n mod 32)"
proof -
  have "ToInt32 (of_nat n) = (of_nat n :: 32 word)" using ToInt32_of_int [of "int n"] by simp
  then show ?thesis by (simp add: ushr_ones unat_and_31)
qed

lemma subnetMask_of_prefix: "subnetMask_of c = mask (32 - prefixLength_of c mod 32)"
  unfolding subnetMask_of_def Number_of_string_def prefixLength_of_def by (rule ushr_ones_mod_32)

lemma ipv4_host_contained:
  assumes d: "is_double (draws rz (pos rz))" and r0: "0 \<le> draws rz (pos rz)"
    and r1: "draws rz (pos rz) < 1"
    and call: "int_js (IntNum (number_of_uint32 (subnetMask_of c))) rz = (Inr h, rz')"
  shows "networkIp_of c \<le> networkIp_of c OR ToInt32 h
       \<and> networkIp_of c OR ToInt32 h \<le> networkIp_of c OR subnetMask_of c"
proof -
  let ?r = "draws rz (pos rz)"
  from ipv4_int_call [of c rz] obtain p where p: "1 \<le> p" "p \<le> 32" "subnetMask_of c = mask p"
    and call': "int_js (IntNum (number_of_uint32 (subnetMask_of c))) rz =
        (Inr (js_mul (js_floor (js_add (js_mul ?r (of_int (2 ^ p - 1 + 1))) 0)) 1),
         rz\<lparr>pos := Suc (pos rz)\<rparr>)" by blast
  define k where "k = \<lfloor>?r * 2 ^ p\<rfloor>"
  from hostOffset_value [OF d r0 r1 p(2)]
  have hv: "js_mul (js_floor (js_add (js_mul ?r (of_int (2 ^ p - 1 + 1))) 0)) 1 = of_int k"
    and k0: "0 \<le> k" and k1: "k \<le> 2 ^ p - 1" unfolding k_def by simp_all
  have h: "h = of_int k" using call call' unfolding hv by simp
  have nm: "networkIp_of c AND mask p = 0" using networkIp_and_mask [of c] by (simp only: p(3))
  have wm: "(word_of_int k :: 32 word) AND mask p = word_of_int k"
    using k0 k1 p(2) by (rule host_and_mask)
  from or_bounds [OF nm wm] show ?thesis unfolding h ToInt32_of_int by (simp only: p(3))
qed

text \<open>
  Claim C10. \<open>ipv4\<close> raises nothing for a CIDR string that passes the syntax check,
  whatever the prefix length \<open>n\<close> (two digits, so up to 99). It takes one draw and returns
  the dotted quad of \<open>networkIp | hostOffset\<close>, where the subnet mask is
  \<open>0xffffffff >>> n\<close>, that is the low \<open>32 - n mod 32\<close> bits (the shift count is reduced
  modulo 32), \<open>networkIp\<close> is the address with the mask bits cleared and \<open>hostOffset\<close> is
  what \<open>int\<close> returns for the mask as upper bound. For a double draw in \<open>[0, 1)\<close> the
  address lies between \<open>networkIp\<close> and \<open>networkIp | subnetMask\<close>.
\<close>

theorem ipv4_prefix_above_32_accepted:
  assumes t: "cidr_regex_test (cidrBlock_of options)"
  shows "\<exists>ip hostOffset.
      ipv4 options rz = (Inr (dotted_quad ip), rz\<lparr>pos := Suc (pos rz)\<rparr>)
    \<and> subnetMask_of (cidrBlock_of options)
        = mask (32 - prefixLength_of (cidrBlock_of options) mod 32)
    \<and> int_js (IntNum (number_of_uint32
          (mask (32 - prefixLength_of (cidrBlock_of options) mod 32)))) rz
        = (Inr hostOffset, rz\<lparr>pos := Suc (pos rz)\<rparr>)
    \<and> ip = (rawIp_of (cidrBlock_of options)
               AND NOT (mask (32 - prefixLength_of (cidrBlock_of options) mod 32)))
            OR ToInt32 hostOffset
    \<and> (is_double (draws rz (pos rz)) \<and> 0 \<le> draws rz (pos rz) \<and> draws rz (pos rz) < 1 \<longrightarrow>
         (rawIp_of (cidrBlock_of options)
            AND NOT (mask (32 - prefixLength_of (cidrBlock_of options) mod 32))) \<le> ip
       \<and> ip \<le> (rawIp_of (cidrBlock_of options)
                   AND NOT (mask (32 - prefixLength_of (cidrBlock_of options) mod 32)))
                 OR mask (32 - prefixLength_of (cidrBlock_of options) mod 32))"
proof -
  let ?c = "cidrBlock_of options"
  define m :: "32 word" where "m = mask (32 - prefixLength_of ?c mod 32)"
  have sm: "subnetMask_of ?c = m" unfolding m_def by (rule subnetMask_of_prefix)
  have ni: "networkIp_of ?c = rawIp_of ?c AND NOT m" by (simp add: networkIp_of_def sm)
  from ipv4_int_call [of ?c rz] obtain h
    where call: "int_js (IntNum (number_of_uint32 (subnetMask_of ?c))) rz
       = (Inr h, rz\<lparr>pos := Suc (pos rz)\<rparr>)" by blast
  define ip where "ip = networkIp_of ?c OR ToInt32 h"
  have res: "ipv4 options rz = (Inr (dotted_quad ip), rz\<lparr>pos := Suc (pos rz)\<rparr>)"
    using t by (simp add: ipv4_def Let_def call ip_def)
  have bounds: "networkIp_of ?c \<le> ip \<and> ip \<le> networkIp_of ?c OR subnetMask_of ?c"
    if "is_double (draws rz (pos rz)) \<and> 0 \<le> draws rz (pos rz) \<and> draws rz (pos rz) < 1"
    unfolding ip_def using that call by (intro ipv4_host_contained) simp_all
  have "ipv4 options rz = (Inr (dotted_quad ip), rz\<lparr>pos := Suc (pos rz)\<rparr>)
    \<and> subnetMask_of ?c = m
    \<and> int_js (IntNum (number_of_uint32 m)) rz = (Inr h, rz\<lparr>pos := Suc (pos rz)\<rparr>)
    \<and> ip = (rawIp_of ?c AND NOT m) OR ToInt32 h
    \<and> (is_double (draws rz (pos rz)) \<and> 0 \<le> draws rz (pos rz) \<and> draws rz (pos rz) < 1 \<longrightarrow>
         (rawIp_of ?c AND NOT m) \<le> ip \<and> ip \<le> (rawIp_of ?c AND NOT m) OR m)"
    using res sm call bounds unfolding ni sm by (simp add: ip_def ni)
  then show ?thesis unfolding m_def by blast
qed

theorem ipv4_prefix_above_32_accepted_witness:
  "cidr_regex_test (cidrBlock_of \<lparr>cidrBlock = Some ''192.168.0.0/33'', network = None\<rparr>)
   \<and> prefixLength_of ''192.168.0.0/33'' = 33
   \<and> subnetMask_of ''192.168.0.0/33'' = subnetMask_of ''192.168.0.0/1''
   \<and> subnetMask_of ''192.168.0.0/33'' = 0x7fffffff
   \<and> is_double (1 / 2)
   \<and> (\<exists>ip. ipv4 \<lparr>cidrBlock = Some ''192.168.0.0/33'', network = None\<rparr>
            \<lparr>draws = (\<lambda>_. 1 / 2), pos = 0\<rparr>
          = (Inr (dotted_quad ip), \<lparr>draws = (\<lambda>_. 1 / 2), pos = 1\<rparr>)
        \<and> ip = 0xC0000000 \<and> 0x80000000 \<le> ip \<and> ip \<le> 0xffffffff)
   \<and> ipv4 \<lparr>cidrBlock = Some ''192.168.0.0/33'', network = None\<rparr>
          \<lparr>draws = (\<lambda>_. 1 / 2), pos = 0\<rparr>
        = (Inr ''192.0.0.0'', \<lparr>draws = (\<lambda>_. 1 / 2), pos = 1\<rparr>)"
proof -
  let ?a = "\<lparr>cidrBlock = Some ''192.168.0.0/33'', network = None\<rparr>"
  let ?rz = "\<lparr>draws = (\<lambda>_. 1 / 2 :: rat), pos = 0\<rparr>"
  have c: "cidrBlock_of ?a = ''192.168.0.0/33''" by (simp add: cidrBlock_of_def)
  have t: "cidr_regex_test (cidrBlock_of ?a)" unfolding c by code_simp
  have p: "prefixLength_of ''192.168.0.0/33'' = 33" by code_simp
  have m: "mask (32 - prefixLength_of ''192.168.0.0/33'' mod 32) = (0x7fffffff :: 32 word)"
    unfolding p by (simp add: mask_eq_exp_minus_1)
  have m1: "subnetMask_of ''192.168.0.0/1'' = 0x7fffffff" by code_simp
  have n: "number_of_uint32 0x7fffffff = 2147483647" by (simp add: number_of_uint32_def)
  have d: "is_double (1 / 2)" by code_simp
  have dr: "is_double (draws ?rz (pos ?rz)) \<and> 0 \<le> draws ?rz (pos ?rz) \<and> draws ?rz (pos ?rz) < 1"
    using d by simp
  have h: "fst (int_js (IntNum 2147483647) ?rz) = Inr 1073741824" by code_simp
  have lo: "rawIp_of ''192.168.0.0/33'' AND NOT 0x7fffffff = 0x80000000" by code_simp
  have ipv: "(0x80000000 :: 32 word) OR ToInt32 1073741824 = 0xC0000000" by code_simp
  have hi: "(0x80000000 :: 32 word) OR 0x7fffffff = 0xffffffff" by simp
  have dq: "dotted_quad 0xC0000000 = ''192.0.0.0''" by code_simp
  from ipv4_prefix_above_32_accepted [OF t, of ?rz] dr obtain ip hostOffset
    where r: "ipv4 ?a ?rz = (Inr (dotted_quad ip), ?rz\<lparr>pos := Suc (pos ?rz)\<rparr>)"
      and s: "subnetMask_of ''192.168.0.0/33'' = 0x7fffffff"
      and call: "int_js (IntNum 2147483647) ?rz = (Inr hostOffset, ?rz\<lparr>pos := Suc (pos ?rz)\<rparr>)"
      and ip: "ip = 0x80000000 OR ToInt32 hostOffset"
      and b: "0x80000000 \<le> ip" "ip \<le> 0xffffffff"
    unfolding c m n lo hi by blast
  have "hostOffset = 1073741824" using h unfolding call by simp
  then have i: "ip = 0xC0000000" using ip ipv by simp
  from r have r': "ipv4 ?a ?rz = (Inr (dotted_quad ip), \<lparr>draws = (\<lambda>_. 1 / 2), pos = 1\<rparr>)"
    by simp
  then have e: "\<exists>ip. ipv4 ?a ?rz = (Inr (dotted_quad ip), \<lparr>draws = (\<lambda>_. 1 / 2), pos = 1\<rparr>)
        \<and> ip = 0xC0000000 \<and> 0x80000000 \<le> ip \<and> ip \<le> 0xffffffff"
    using i b by blast
  have res: "ipv4 ?a ?rz = (Inr ''192.0.0.0'', \<lparr>draws = (\<lambda>_. 1 / 2), pos = 1\<rparr>)"
    using r' i dq by simp
  have eqm: "subnetMask_of ''192.168.0.0/33'' = subnetMask_of ''192.168.0.0/1''"
    unfolding s m1 by (rule refl)
  show ?thesis by (intro conjI) (rule t p eqm s d e res)+
qed

text \<open>
  Each component of the dotted quad is a byte. The prefix length 32 is a shift by 0: the
  subnet mask is all ones and the network address is 0, as for the prefix length 0.
\<close>

lemma octet_bound: "unat ((w :: 32 word) AND 0xff) < 256"
proof -
  have "w AND 0xff \<le> 0xff" by (rule word_and_le1)
  then have "unat (w AND 0xff) \<le> unat (0xff :: 32 word)" by (simp only: word_le_nat_alt)
  then show ?thesis by simp
qed

lemma prefix_32_is_prefix_0:
  "subnetMask_of ''192.168.1.77/32'' = 0xffffffff \<and> networkIp_of ''192.168.1.77/32'' = 0
   \<and> subnetMask_of ''192.168.1.77/32'' = subnetMask_of ''192.168.1.77/0''"
  by code_simp

section \<open>Properties of romanNumeral\<close>

lemma floor_js_div_nat:
  assumes v: "0 < v" "v \<le> 1024" and r: "r < 2 ^ 40"
  shows "\<lfloor>js_div (of_nat r) (of_nat v)\<rfloor> = int (r div v)"
proof -
  define k where "k = r div v"
  define q :: rat where "q = of_nat r / of_nat v"
  have vpos: "(0::rat) < of_nat v" using v(1) by simp
  have kr: "k \<le> r" unfolding k_def by (rule div_le_dividend)
  have kb: "int k < 2 ^ 40" using kr r by simp
  have "k * v \<le> r" unfolding k_def by simp
  then have "(of_nat (k * v) :: rat) \<le> of_nat r" by (simp only: of_nat_le_iff)
  then have lo: "of_nat k \<le> q" unfolding q_def using vpos by (simp add: field_simps)
  have "r < (k + 1) * v" unfolding k_def using v(1)
    by (metis Suc_eq_plus1 dividend_less_div_times mult.commute mult_Suc)
  then have "r + 1 \<le> (k + 1) * v" by simp
  then have "(of_nat (r + 1) :: rat) \<le> of_nat ((k + 1) * v)" by (simp only: of_nat_le_iff)
  then have "(of_nat r :: rat) + 1 \<le> (of_nat k + 1) * of_nat v" by (simp add: algebra_simps)
  then have hi: "q \<le> of_nat k + 1 - 1 / of_nat v" unfolding q_def using vpos
    by (simp add: field_simps)
  have "(of_nat v :: rat) \<le> of_nat 1024" using v(2) by (simp only: of_nat_le_iff)
  then have "(1::rat) / 1024 \<le> 1 / of_nat v" using vpos by (simp add: field_simps)
  with hi have hi': "q \<le> of_nat k + 1 - 1 / 1024" by linarith
  define y :: rat where "y = of_int ((int k + 1) * 1024 - 1) * 2 powi (- 10)"
  have yv: "y = of_nat k + 1 - 1 / 1024" unfolding y_def by (simp add: power_int_minus field_simps)
  have "\<bar>(int k + 1) * 1024 - 1\<bar> < 2 ^ 53" using kb by simp
  then have ry: "round53 y = y" unfolding y_def by (rule round53_exact)
  have "\<bar>int k\<bar> < 2 ^ 53" using kb by simp
  then have rk: "round53 (of_int (int k)) = of_int (int k)" by (rule round53_of_int)
  have "round53 (of_int (int k)) \<le> round53 q" using lo by (intro round53_mono) simp
  then have l: "of_int (int k) \<le> round53 q" by (simp only: rk)
  have "round53 q \<le> round53 y" using hi' unfolding yv by (rule round53_mono)
  then have "round53 q \<le> y" by (simp only: ry)
  then have u: "round53 q < of_int (int k) + 1" unfolding yv by simp
  have "\<lfloor>round53 q\<rfloor> = int k" using l u by (rule floor_unique)
  then show ?thesis unfolding js_div_def q_def k_def .
qed

lemma js_rem_nat:
  assumes "0 < v"
  shows "js_rem (of_nat r) (of_nat v) = of_nat (r mod v)"
proof -
  have "(0::rat) \<le> of_nat r / of_nat v" by simp
  then have t: "js_trunc (of_nat r / of_nat v) = \<lfloor>(of_nat r :: rat) / of_nat v\<rfloor>"
    by (simp add: js_trunc_def)
  have f: "\<lfloor>(of_nat r :: rat) / of_nat v\<rfloor> = int (r div v)"
    by (simp add: floor_divide_of_nat_eq)
  have "(of_nat r :: rat) = of_nat (v * (r div v) + r mod v)" by simp
  then have "(of_nat r :: rat) - of_nat v * of_nat (r div v) = of_nat (r mod v)"
    by (simp only: of_nat_add of_nat_mult; simp)
  then show ?thesis unfolding js_rem_def t f by simp
qed

lemma string_repeat_nat:
  "string_repeat k (js_floor x) = (if \<lfloor>x\<rfloor> < 0 then None else Some (concat (replicate (nat \<lfloor>x\<rfloor>) k)))"
proof -
  have "js_trunc (of_int \<lfloor>x\<rfloor>) = \<lfloor>x\<rfloor>" by (simp add: js_trunc_def)
  then show ?thesis by (simp add: string_repeat_def js_floor_def)
qed

lemma roman_loop_greedy:
  assumes "\<forall>(k, v) \<in> set tbl. 0 < v \<and> v \<le> 1024" and "r < 2 ^ 40"
  shows "roman_loop (map (\<lambda>(k, v). (k, of_nat v)) tbl) (of_nat r) acc
           = Inr (acc @ greedy_encoding tbl r)"
  using assms
proof (induction tbl arbitrary: r acc)
  case Nil
  then show ?case by simp
next
  case (Cons kv tbl)
  obtain k v where kv: "kv = (k, v)" by (cases kv)
  have v: "0 < v" "v \<le> 1024" using Cons.prems(1) kv by simp_all
  have fl: "\<lfloor>js_div (of_nat r) (of_nat v)\<rfloor> = int (r div v)"
    using v Cons.prems(2) by (rule floor_js_div_nat)
  have rp: "string_repeat k (js_floor (js_div (of_nat r) (of_nat v)))
      = Some (concat (replicate (r div v) k))"
    by (simp add: string_repeat_nat fl)
  have rm: "js_rem (of_nat r) (of_nat v) = of_nat (r mod v)" using v(1) by (rule js_rem_nat)
  have "r mod v \<le> r" by simp
  then have r': "r mod v < 2 ^ 40" using Cons.prems(2) by (rule le_less_trans)
  have tb: "\<forall>(k, v) \<in> set tbl. 0 < v \<and> v \<le> 1024" using Cons.prems(1) by simp
  have "roman_loop (map (\<lambda>(k, v). (k, of_nat v)) tbl) (of_nat (r mod v))
          (acc @ concat (replicate (r div v) k))
        = Inr ((acc @ concat (replicate (r div v) k)) @ greedy_encoding tbl (r mod v))"
    using tb r' by (rule Cons.IH)
  then show ?case by (simp add: kv rp rm)
qed

lemma lookup_table: "lookup = map (\<lambda>(k, v). (k, of_nat v)) roman_table"
  by (simp add: lookup_def roman_table_def)

lemma int_js_single:
  assumes "\<bar>n\<bar> < 2 ^ 53"
  shows "int_js (IntOpts \<lparr>int_min = Some (of_int n), int_max = Some (of_int n),
            int_multipleOf = None\<rparr>) rz = (Inr (of_int n), rz)"
proof -
  let ?a = "IntOpts \<lparr>int_min = Some (of_int n), int_max = Some (of_int n), int_multipleOf = None\<rparr>"
  have a: "int_min_of ?a = of_int n" "int_max_of ?a = of_int n" "int_multipleOf_of ?a = 1"
    by (simp_all add: int_min_of_def int_max_of_def int_multipleOf_of_def int_normalize_def)
  have rn: "round53 (of_int n) = of_int n" using assms by (rule round53_of_int)
  have emin: "effectiveMin (of_int n) 1 = of_int n"
    by (simp add: effectiveMin_def js_div_def rn js_ceil_def)
  have emax: "effectiveMax (of_int n) 1 = of_int n"
    by (simp add: effectiveMax_def js_div_def rn js_floor_def)
  have m: "js_mul (of_int n) 1 = of_int n" by (simp add: js_mul_def rn)
  have int1: "isInteger 1" by (simp add: isInteger_def)
  show ?thesis unfolding int_js_def a Let_def emin emax m using int1 by simp
qed

lemma romanNumeral_single:
  assumes "1 \<le> n" and "n \<le> 3999"
  shows "romanNumeral (RomanOpts \<lparr>roman_min = Some (of_nat n), roman_max = Some (of_nat n)\<rparr>) rz
           = (Inr (greedy_encoding roman_table n), rz)"
proof -
  let ?a = "RomanOpts \<lparr>roman_min = Some (of_nat n), roman_max = Some (of_nat n)\<rparr>"
  have a: "roman_min_of ?a = of_nat n" "roman_max_of ?a = of_nat n"
    by (simp_all add: roman_min_of_def roman_max_of_def roman_normalize_def)
  have c1: "\<not> (of_nat n :: rat) < DEFAULT_MIN" using assms(1) by (simp add: DEFAULT_MIN_def)
  have "(of_nat n :: rat) \<le> of_nat 3999" using assms(2) by (simp only: of_nat_le_iff)
  then have c2: "\<not> (of_nat n :: rat) > DEFAULT_MAX" by (simp add: DEFAULT_MAX_def)
  have "\<bar>int n\<bar> < 2 ^ 53" using assms(2) by simp
  from int_js_single [OF this, of rz]
  have call: "int_js (IntOpts \<lparr>int_min = Some (of_nat n), int_max = Some (of_nat n),
            int_multipleOf = None\<rparr>) rz = (Inr (of_nat n), rz)" by simp
  have tb: "\<forall>(k, v) \<in> set roman_table. 0 < v \<and> v \<le> 1024" by (simp add: roman_table_def)
  have "n < 2 ^ 40" using assms(2) by simp
  with tb have loop: "roman_loop lookup (of_nat n) [] = Inr ([] @ greedy_encoding roman_table n)"
    unfolding lookup_table by (rule roman_loop_greedy)
  show ?thesis unfolding romanNumeral_def a Let_def using c1 c2 by (simp add: call loop)
qed

text \<open>
  Claim C8. For every integer \<open>n\<close> in \<open>[1, 3999]\<close>, \<open>romanNumeral({min: n, max: n})\<close>
  returns the greedy encoding of \<open>n\<close> over the table of the specification, without a
  draw; for 1994 it is \<open>MCMXCIV\<close>.
\<close>

theorem romanNumeral_greedy:
  assumes "1 \<le> n" and "n \<le> 3999"
  shows "romanNumeral (RomanOpts \<lparr>roman_min = Some (of_nat n), roman_max = Some (of_nat n)\<rparr>) rz
           = (Inr (greedy_encoding roman_table n), rz)
       \<and> romanNumeral (RomanOpts \<lparr>roman_min = Some 1994, roman_max = Some 1994\<rparr>) rz
           = (Inr ''MCMXCIV'', rz)"
proof -
  have ex: "greedy_encoding roman_table 1994 = ''MCMXCIV''" by code_simp
  have "(1::nat) \<le> 1994" "(1994::nat) \<le> 3999" by simp_all
  from romanNumeral_single [OF this, of rz] ex
  have "romanNumeral (RomanOpts \<lparr>roman_min = Some 1994, roman_max = Some 1994\<rparr>) rz
           = (Inr ''MCMXCIV'', rz)" by simp
  with romanNumeral_single [OF assms, of rz] show ?thesis by simp
qed

theorem romanNumeral_greedy_witness:
  "romanNumeral (RomanOpts \<lparr>roman_min = Some (of_nat 2024), roman_max = Some (of_nat 2024)\<rparr>)
      \<lparr>draws = (\<lambda>_. 1 / 2), pos = 0\<rparr> = (Inr ''MMXXIV'', \<lparr>draws = (\<lambda>_. 1 / 2), pos = 0\<rparr>)
   \<and> romanNumeral (RomanOpts \<lparr>roman_min = Some 1994, roman_max = Some 1994\<rparr>)
      \<lparr>draws = (\<lambda>_. 1 / 2), pos = 0\<rparr> = (Inr ''MCMXCIV'', \<lparr>draws = (\<lambda>_. 1 / 2), pos = 0\<rparr>)"
proof -
  have ex: "greedy_encoding roman_table 2024 = ''MMXXIV''" by code_simp
  have "(1::nat) \<le> 2024" "(2024::nat) \<le> 3999" by simp_all
  from romanNumeral_greedy [OF this, of "\<lparr>draws = (\<lambda>_. 1 / 2), pos = 0\<rparr>"]
  show ?thesis unfolding ex by simp
qed

section \<open>Properties of float with a stride\<close>

lemma effective_unit:
  assumes "is_double x"
  shows "effectiveMin x 1 = of_int \<lceil>x\<rceil>" and "effectiveMax x 1 = of_int \<lfloor>x\<rfloor>"
  using assms by (simp_all add: effectiveMin_def effectiveMax_def js_div_def is_double_def
      js_ceil_def js_floor_def)

lemma no_integer_between_iff:
  fixes a b :: rat
  shows "\<lfloor>b\<rfloor> < \<lceil>a\<rceil> \<longleftrightarrow> \<not> (\<exists>k::int. a \<le> of_int k \<and> of_int k \<le> b)"
proof
  assume lt: "\<lfloor>b\<rfloor> < \<lceil>a\<rceil>"
  show "\<not> (\<exists>k::int. a \<le> of_int k \<and> of_int k \<le> b)"
  proof
    assume "\<exists>k::int. a \<le> of_int k \<and> of_int k \<le> b"
    then obtain k :: int where k: "a \<le> of_int k" "of_int k \<le> b" by blast
    have "\<lceil>a\<rceil> \<le> k" using k(1) by (simp only: ceiling_le_iff)
    moreover have "k \<le> \<lfloor>b\<rfloor>" using k(2) by (simp only: le_floor_iff)
    ultimately show False using lt by linarith
  qed
next
  assume no: "\<not> (\<exists>k::int. a \<le> of_int k \<and> of_int k \<le> b)"
  show "\<lfloor>b\<rfloor> < \<lceil>a\<rceil>"
  proof (rule ccontr)
    assume "\<not> \<lfloor>b\<rfloor> < \<lceil>a\<rceil>"
    then have "\<lceil>a\<rceil> \<le> \<lfloor>b\<rfloor>" by simp
    then have "(of_int \<lceil>a\<rceil> :: rat) \<le> of_int \<lfloor>b\<rfloor>" by (simp only: of_int_le_iff)
    moreover have "of_int \<lfloor>b\<rfloor> \<le> b" by simp
    moreover have "a \<le> of_int \<lceil>a\<rceil>" by simp
    ultimately have "a \<le> of_int \<lceil>a\<rceil> \<and> of_int \<lceil>a\<rceil> \<le> b" by linarith
    with no show False by blast
  qed
qed

lemma float_stride_exhausted:
  assumes m: "0 < m" and f: "0 \<le> float_factor M m" and le: "mn \<le> mx"
    and empty: "effectiveMax (js_mul mx (float_factor M m)) 1
                  < effectiveMin (js_mul mn (float_factor M m)) 1"
  shows "float_stride M mn mx (Some m) rz =
    (Inl (RangeExhausted (js_mul mn (float_factor M m)) (js_mul mx (float_factor M m))), rz)"
proof -
  let ?f = "float_factor M m"
  let ?a = "IntOpts \<lparr>int_min = Some (js_mul mn ?f), int_max = Some (js_mul mx ?f),
      int_multipleOf = None\<rparr>"
  have a: "int_min_of ?a = js_mul mn ?f" "int_max_of ?a = js_mul mx ?f" "int_multipleOf_of ?a = 1"
    by (simp_all add: int_min_of_def int_max_of_def int_multipleOf_of_def int_normalize_def)
  have "mn * ?f \<le> mx * ?f" using le f by (rule mult_right_mono)
  then have ge: "js_mul mn ?f \<le> js_mul mx ?f" unfolding js_mul_def by (rule round53_mono)
  have int1: "isInteger 1" "(0::rat) < 1" by (simp_all add: isInteger_def)
  have "isInteger (int_multipleOf_of ?a)" "0 < int_multipleOf_of ?a"
    "effectiveMax (int_max_of ?a) (int_multipleOf_of ?a)
       < effectiveMin (int_min_of ?a) (int_multipleOf_of ?a)"
    unfolding a using int1 empty by simp_all
  then have "int_js ?a rz = (Inl (RangeExhausted (int_min_of ?a) (int_max_of ?a)), rz)"
    using ge unfolding a by (simp add: int_js_def Let_def a)
  then show ?thesis using m by (simp add: float_stride_def Let_def a)
qed

text \<open>
  Claim C9. When \<open>min \<le> max\<close>, a stride is active (\<open>multipleOf\<close>, or \<open>fractionDigits\<close>
  through \<open>10 ** -fractionDigits\<close>), the factor is not negative and the scaled range
  \<open>[min * factor, max * factor]\<close> holds no integer, \<open>float\<close> raises the \<open>RangeExhausted\<close>
  error of \<open>int\<close>.
\<close>

theorem float_stride_range_exhausted:
  assumes le: "float_min_of a \<le> float_max_of a"
    and stride: "(float_fractionDigits (float_normalize a) = None
                    \<and> float_multipleOf (float_normalize a) = Some m)
               \<or> (\<exists>d. float_fractionDigits (float_normalize a) = Some d
                    \<and> float_multipleOf (float_normalize a) = None
                    \<and> isInteger d \<and> 0 \<le> d \<and> m = math_pow M 10 (- d))"
    and m: "0 < m" and f: "0 \<le> float_factor M m"
    and empty: "effectiveMax (js_mul (float_max_of a) (float_factor M m)) 1
                  < effectiveMin (js_mul (float_min_of a) (float_factor M m)) 1"
  shows "float_js M a rz =
    (Inl (RangeExhausted (js_mul (float_min_of a) (float_factor M m))
                         (js_mul (float_max_of a) (float_factor M m))), rz)
    \<and> \<not> (\<exists>k::int. js_mul (float_min_of a) (float_factor M m) \<le> of_int k
              \<and> of_int k \<le> js_mul (float_max_of a) (float_factor M m))"
proof -
  let ?f = "float_factor M m"
  have s: "float_stride_of M a = Some m" using stride by (auto simp add: float_stride_of_def)
  have nl: "\<not> float_max_of a < float_min_of a" using le by simp
  have st: "float_stride M (float_min_of a) (float_max_of a) (Some m) rz =
    (Inl (RangeExhausted (js_mul (float_min_of a) ?f) (js_mul (float_max_of a) ?f)), rz)"
    using m f le empty by (rule float_stride_exhausted)
  have 1: "float_js M a rz = float_stride M (float_min_of a) (float_max_of a) (Some m) rz"
    using stride nl by (auto simp add: float_js_def Let_def s not_le)
  have da: "is_double (js_mul (float_min_of a) ?f)" and db: "is_double (js_mul (float_max_of a) ?f)"
    by (simp_all add: js_mul_def is_double_round53)
  have "\<lfloor>js_mul (float_max_of a) ?f\<rfloor> < \<lceil>js_mul (float_min_of a) ?f\<rceil>"
    using empty unfolding effective_unit [OF da] effective_unit [OF db] by (simp only: of_int_less_iff)
  then have 2: "\<not> (\<exists>k::int. js_mul (float_min_of a) ?f \<le> of_int k
              \<and> of_int k \<le> js_mul (float_max_of a) ?f)"
    by (rule iffD1 [OF no_integer_between_iff])
  show ?thesis using 1 st 2 by simp
qed


theorem float_stride_range_exhausted_witness:
  "float_js sample_math (FloatOpts \<lparr>float_min = Some (round53 (11 / 100)),
      float_max = Some (round53 (12 / 100)), float_fractionDigits = Some 1,
      float_multipleOf = None\<rparr>) \<lparr>draws = (\<lambda>_. 1 / 2), pos = 0\<rparr>
   = (Inl (RangeExhausted (js_mul (round53 (11 / 100)) 10) (js_mul (round53 (12 / 100)) 10)),
      \<lparr>draws = (\<lambda>_. 1 / 2), pos = 0\<rparr>)"
proof -
  let ?a = "FloatOpts \<lparr>float_min = Some (round53 (11 / 100)),
      float_max = Some (round53 (12 / 100)), float_fractionDigits = Some 1,
      float_multipleOf = None\<rparr>"
  let ?m = "math_pow sample_math 10 (- 1)"
  have mn: "float_min_of ?a = round53 (11 / 100)" and mx: "float_max_of ?a = round53 (12 / 100)"
    by (simp_all add: float_min_of_def float_max_of_def float_normalize_def)
  have fac: "float_factor sample_math ?m = 10" by code_simp
  have le: "float_min_of ?a \<le> float_max_of ?a" by code_simp
  have stride: "(float_fractionDigits (float_normalize ?a) = None
                    \<and> float_multipleOf (float_normalize ?a) = Some ?m)
               \<or> (\<exists>d. float_fractionDigits (float_normalize ?a) = Some d
                    \<and> float_multipleOf (float_normalize ?a) = None
                    \<and> isInteger d \<and> 0 \<le> d \<and> ?m = math_pow sample_math 10 (- d))"
    by (simp add: float_normalize_def isInteger_def)
  have m: "0 < ?m" by code_simp
  have f: "0 \<le> float_factor sample_math ?m" unfolding fac by simp
  have empty: "effectiveMax (js_mul (float_max_of ?a) (float_factor sample_math ?m)) 1
                  < effectiveMin (js_mul (float_min_of ?a) (float_factor sample_math ?m)) 1"
    by code_simp
  from float_stride_range_exhausted [OF le stride m f empty, of "\<lparr>draws = (\<lambda>_. 1 / 2), pos = 0\<rparr>"]
  show ?thesis unfolding mn mx fac by simp
qed

section \<open>Properties of float without a stride\<close>

lemma round53_nonneg: "0 \<le> x \<Longrightarrow> 0 \<le> round53 x"
  using round53_mono [of 0 x] by (simp add: round53_zero)

lemma rne_below_half:
  assumes "q < of_int k - 1 / 2" shows "rne q \<le> k - 1"
proof -
  have "q < of_int k" using assms by linarith
  then have fl: "\<lfloor>q\<rfloor> \<le> k - 1" by (simp add: floor_less_iff)
  show ?thesis
  proof (cases "\<lfloor>q\<rfloor> = k - 1")
    case True
    then have "q - of_int \<lfloor>q\<rfloor> < 1 / 2" using assms by simp
    then have "rne q = \<lfloor>q\<rfloor>" by (simp add: rne_def Let_def)
    then show ?thesis using True by simp
  next
    case False
    then have "\<lfloor>q\<rfloor> + 1 \<le> k - 1" using fl by linarith
    then show ?thesis using rne_le_floor_Suc [of q] by linarith
  qed
qed

lemma double_significand:
  assumes "is_double d" and "0 < d"
  shows "\<exists>K. 2 ^ 52 \<le> K \<and> K < 2 ^ 53 \<and> d = of_int K * 2 powi (ilog2 d - 52)"
proof -
  define u :: rat where "u = 2 powi (ilog2 d - 52)"
  define K where "K = rne (d / u)"
  have "round53 d = of_int K * u" unfolding K_def u_def by (rule round53_pos_eq [OF assms(2)])
  then have d: "d = of_int K * u" using assms(1) by (simp add: is_double_def)
  have upos: "0 < u" by (simp add: u_def)
  from d have q: "d / u = of_int K" using upos by (simp add: field_simps)
  from scaled_bounds [OF assms(2)] have b: "(2::rat) ^ 52 \<le> d / u" "d / u < 2 ^ 53"
    unfolding u_def by simp_all
  have "(of_int (2 ^ 52) :: rat) \<le> of_int K" using b(1) unfolding q by simp
  then have k1: "2 ^ 52 \<le> K" by (simp only: of_int_le_iff)
  have "(of_int K :: rat) < of_int (2 ^ 53)" using b(2) unfolding q by simp
  then have k2: "K < 2 ^ 53" by (simp only: of_int_less_iff)
  from k1 k2 d show ?thesis unfolding u_def by blast
qed

lemma double_below_one:
  assumes "is_double r" and "r < 1"
  shows "r \<le> 1 - 1 / 2 ^ 53"
proof (cases "r \<le> 1 / 2")
  case True
  then show ?thesis by simp
next
  case False
  then have rpos: "0 < r" and half: "1 / 2 \<le> r" by simp_all
  have "(2::rat) powi (- 1) \<le> r" using half by (simp add: power_int_minus)
  moreover have "r < 2 powi (- 1 + 1)" using assms(2) by simp
  ultimately have il: "ilog2 r = - 1" using rpos by (intro ilog2_unique) simp_all
  from double_significand [OF assms(1) rpos] obtain K
    where K: "K < 2 ^ 53" "r = of_int K * 2 powi (- 53)" unfolding il by auto
  have "K \<le> 2 ^ 53 - 1" using K(1) by simp
  then have "(of_int K :: rat) \<le> of_int (2 ^ 53 - 1)" by (simp only: of_int_le_iff)
  then have "(of_int K :: rat) * 2 powi (- 53) \<le> of_int (2 ^ 53 - 1) * 2 powi (- 53)"
    by (rule mult_right_mono) simp
  then show ?thesis unfolding K(2) by (simp add: power_int_minus field_simps)
qed

lemma round53_below_double:
  assumes d: "is_double d" and dpos: "0 < d"
  shows "round53 (d * (1 - 1 / 2 ^ 53)) < d"
proof -
  define e where "e = ilog2 d"
  define u :: rat where "u = 2 powi (e - 52)"
  from double_significand [OF d dpos] obtain K
    where K: "2 ^ 52 \<le> K" "K < 2 ^ 53" "d = of_int K * u" unfolding e_def u_def by blast
  have upos: "0 < u" by (simp add: u_def)
  define w where "w = d * (1 - 1 / 2 ^ 53)"
  have wd: "w < d" unfolding w_def using dpos by simp
  have wpos: "0 < w" unfolding w_def using dpos by simp
  have ue: "2 powi e = 2 ^ 52 * u" unfolding u_def by (simp add: power_int_diff)
  show ?thesis
  proof (cases "K = 2 ^ 52")
    case True
    have "u = 2 powi (e - 53) * 2 powi 1"
      unfolding u_def using power_int_add [of "2::rat" "e - 53" 1] by simp
    then have u2: "u = 2 * 2 powi (e - 53)" by simp
    have "w = of_int (2 ^ 53 - 1) * 2 powi (e - 53)"
      unfolding w_def K(3) True u2 by simp
    moreover have "\<bar>2 ^ 53 - 1 :: int\<bar> < 2 ^ 53" by simp
    ultimately have "round53 w = w" using round53_exact [of "2 ^ 53 - 1" "e - 53"] by simp
    then show ?thesis using wd unfolding w_def by simp
  next
    case False
    then have K1: "2 ^ 52 + 1 \<le> K" using K(1) by linarith
    then have "(of_int (2 ^ 52 + 1) :: rat) \<le> of_int K" by (simp only: of_int_le_iff)
    then have Kr: "(2::rat) ^ 52 + 1 \<le> of_int K" by simp
    have "(of_int K :: rat) < of_int (2 ^ 53)" using K(2) by (simp only: of_int_less_iff)
    then have Kr2: "(of_int K :: rat) < 2 ^ 53" by simp
    have wq: "w / u = of_int K - of_int K / 2 ^ 53"
      unfolding w_def K(3) using upos by (simp add: field_simps)
    have frac1: "(of_int K :: rat) / 2 ^ 53 < 1" using Kr2 by simp
    have frac2: "1 / 2 < (of_int K :: rat) / 2 ^ 53" using Kr by simp
    have "2 ^ 52 \<le> w / u" unfolding wq using Kr frac1 by linarith
    then have "2 ^ 52 * u \<le> w" using upos by (simp add: field_simps)
    then have lo: "2 powi e \<le> w" by (simp only: ue)
    have "d < 2 powi (e + 1)" using ilog2_bounds [OF dpos] by (simp add: e_def)
    with wd have hi: "w < 2 powi (e + 1)" by linarith
    have il: "ilog2 w = e" using wpos lo hi by (rule ilog2_unique)
    have "w / u < of_int K - 1 / 2" unfolding wq using frac2 by linarith
    then have "rne (w / u) \<le> K - 1" by (rule rne_below_half)
    then have "(of_int (rne (w / u)) :: rat) \<le> of_int (K - 1)" by (simp only: of_int_le_iff)
    then have "of_int (rne (w / u)) * u \<le> of_int (K - 1) * u"
      using upos by (intro mult_right_mono) simp_all
    moreover have "round53 w = of_int (rne (w / u)) * u"
      using round53_pos_eq [OF wpos] unfolding il u_def .
    moreover have "of_int (K - 1) * u < d" unfolding K(3) using upos by simp
    ultimately show ?thesis unfolding w_def by linarith
  qed
qed

lemma round53_mul_below:
  assumes d: "is_double d" and dpos: "0 < d" and r: "is_double r" "r < 1"
  shows "round53 (r * d) < d"
proof -
  have "r \<le> 1 - 1 / 2 ^ 53" using r by (rule double_below_one)
  then have "r * d \<le> (1 - 1 / 2 ^ 53) * d" using dpos by (intro mult_right_mono) simp_all
  then have "round53 (r * d) \<le> round53 (d * (1 - 1 / 2 ^ 53))"
    by (intro round53_mono) (simp add: mult.commute)
  also have "\<dots> < d" using d dpos by (rule round53_below_double)
  finally show ?thesis .
qed

lemma double_below_rounded:
  assumes "is_double p" and "p < round53 t"
  shows "p \<le> t"
proof (rule ccontr)
  assume "\<not> p \<le> t"
  then have "t \<le> p" by simp
  then have "round53 t \<le> round53 p" by (rule round53_mono)
  then show False using assms by (simp add: is_double_def)
qed

lemma float_upper_bound:
  assumes mn: "is_double mn" and mx: "is_double mx" and le: "mn \<le> mx"
    and r: "is_double r" "0 \<le> r" "r < 1"
  shows "js_add (js_mul r (js_sub mx mn)) mn \<le> mx"
proof -
  define d where "d = js_sub mx mn"
  define p where "p = js_mul r d"
  have dd: "is_double d" unfolding d_def js_sub_def by (rule is_double_round53)
  have pd: "is_double p" unfolding p_def js_mul_def by (rule is_double_round53)
  have d0: "0 \<le> d" unfolding d_def js_sub_def using le by (intro round53_nonneg) simp
  have "p \<le> mx - mn"
  proof (cases "d = 0")
    case True
    then have "p = 0" by (simp add: p_def js_mul_def round53_zero)
    then show ?thesis using le by simp
  next
    case False
    then have dpos: "0 < d" using d0 by simp
    have "p < d" unfolding p_def js_mul_def using dd dpos r(1) r(3) by (rule round53_mul_below)
    then have "p < round53 (mx - mn)" by (simp add: d_def js_sub_def)
    with pd show ?thesis by (rule double_below_rounded)
  qed
  then have "p + mn \<le> mx" by simp
  then have "round53 (p + mn) \<le> round53 mx" by (rule round53_mono)
  then show ?thesis using mx by (simp add: js_add_def p_def d_def is_double_def)
qed

text \<open>
  The formula of \<open>float\<close> without a stride. When neither \<open>multipleOf\<close> nor \<open>fractionDigits\<close> is set
  and \<open>min \<le> max\<close>, \<open>float\<close> takes exactly one draw \<open>r\<close> and returns
  \<open>r * (max - min) + min\<close> in double arithmetic. The lower bound is reachable (the draw 0
  gives \<open>min\<close>) and the result is never below it; for a draw in \<open>[0, 1)\<close> the result is
  never above \<open>max\<close>; when \<open>min = max\<close> the result is \<open>max\<close>.
\<close>

lemma float_continuous:
  assumes none: "float_fractionDigits (float_normalize a) = None"
      "float_multipleOf (float_normalize a) = None"
    and le: "float_min_of a \<le> float_max_of a"
    and d: "is_double (float_min_of a)"
  shows "float_js M a rz =
      (Inr (js_add (js_mul (draws rz (pos rz)) (js_sub (float_max_of a) (float_min_of a)))
                   (float_min_of a)), rz\<lparr>pos := Suc (pos rz)\<rparr>)
    \<and> (draws rz (pos rz) = 0 \<longrightarrow> fst (float_js M a rz) = Inr (float_min_of a))
    \<and> (0 \<le> draws rz (pos rz) \<longrightarrow>
         (\<exists>v. fst (float_js M a rz) = Inr v \<and> float_min_of a \<le> v))
    \<and> (is_double (float_max_of a) \<and> is_double (draws rz (pos rz))
          \<and> 0 \<le> draws rz (pos rz) \<and> draws rz (pos rz) < 1 \<longrightarrow>
         (\<exists>v. fst (float_js M a rz) = Inr v \<and> v \<le> float_max_of a))
    \<and> (float_min_of a = float_max_of a \<longrightarrow> fst (float_js M a rz) = Inr (float_max_of a))"
proof -
  let ?mn = "float_min_of a" and ?mx = "float_max_of a" and ?r = "draws rz (pos rz)"
  let ?v = "js_add (js_mul ?r (js_sub ?mx ?mn)) ?mn"
  have rm: "round53 ?mn = ?mn" using d by (simp add: is_double_def)
  have res: "float_js M a rz = (Inr ?v, rz\<lparr>pos := Suc (pos rz)\<rparr>)"
    using none le by (simp add: float_js_def float_stride_def float_stride_of_def
        next_draw_def Let_def not_less [symmetric])
  have zero: "?v = ?mn" if "?r = 0"
    using that by (simp add: js_add_def js_mul_def round53_zero rm)
  have lower: "?mn \<le> ?v" if "0 \<le> ?r"
  proof -
    have "0 \<le> ?mx - ?mn" using le by simp
    then have "0 \<le> js_sub ?mx ?mn" unfolding js_sub_def by (rule round53_nonneg)
    with that have "0 \<le> ?r * js_sub ?mx ?mn" by simp
    then have "0 \<le> js_mul ?r (js_sub ?mx ?mn)" unfolding js_mul_def by (rule round53_nonneg)
    then have "?mn \<le> js_mul ?r (js_sub ?mx ?mn) + ?mn" by simp
    then have "round53 ?mn \<le> ?v" unfolding js_add_def by (rule round53_mono)
    then show ?thesis by (simp only: rm)
  qed
  have upper: "?v \<le> ?mx" if "is_double ?mx \<and> is_double ?r \<and> 0 \<le> ?r \<and> ?r < 1"
    using d that le by (intro float_upper_bound) simp_all
  have same: "?v = ?mx" if "?mn = ?mx"
    using that [symmetric] by (simp add: js_add_def js_mul_def js_sub_def round53_zero rm)
  show ?thesis using res zero lower upper same by simp
qed

lemma float_continuous_on_examples:
  "float_js sample_math (FloatOpts \<lparr>float_min = Some 20, float_max = Some 30,
      float_fractionDigits = None, float_multipleOf = None\<rparr>) \<lparr>draws = (\<lambda>_. 0), pos = 0\<rparr>
   = (Inr 20, \<lparr>draws = (\<lambda>_. 0), pos = 1\<rparr>)
   \<and> float_js sample_math (FloatOpts \<lparr>float_min = Some 5, float_max = Some 5,
      float_fractionDigits = None, float_multipleOf = None\<rparr>) \<lparr>draws = (\<lambda>_. 0), pos = 0\<rparr>
   = (Inr 5, \<lparr>draws = (\<lambda>_. 0), pos = 1\<rparr>)"
proof -
  let ?a = "FloatOpts \<lparr>float_min = Some 20, float_max = Some 30,
      float_fractionDigits = None, float_multipleOf = None\<rparr>"
  let ?b = "FloatOpts \<lparr>float_min = Some 5, float_max = Some 5,
      float_fractionDigits = None, float_multipleOf = None\<rparr>"
  let ?rz = "\<lparr>draws = (\<lambda>_. 0 :: rat), pos = 0\<rparr>"
  have na: "float_fractionDigits (float_normalize ?a) = None"
      "float_multipleOf (float_normalize ?a) = None"
    by (simp_all add: float_normalize_def)
  have nb: "float_fractionDigits (float_normalize ?b) = None"
      "float_multipleOf (float_normalize ?b) = None"
    by (simp_all add: float_normalize_def)
  have a: "float_min_of ?a = 20" "float_max_of ?a = 30"
    by (simp_all add: float_min_of_def float_max_of_def float_normalize_def)
  have b: "float_min_of ?b = 5" "float_max_of ?b = 5"
    by (simp_all add: float_min_of_def float_max_of_def float_normalize_def)
  have la: "float_min_of ?a \<le> float_max_of ?a" unfolding a by simp
  have lb: "float_min_of ?b \<le> float_max_of ?b" unfolding b by simp
  have da: "is_double (float_min_of ?a)" unfolding a by code_simp
  have db: "is_double (float_min_of ?b)" unfolding b by code_simp
  have va: "js_add (js_mul 0 (js_sub 30 20)) 20 = 20" by code_simp
  have vb: "js_add (js_mul 0 (js_sub 5 5)) 5 = 5" by code_simp
  from float_continuous [OF na la da, of sample_math ?rz]
  have A: "float_js sample_math ?a ?rz = (Inr 20, \<lparr>draws = (\<lambda>_. 0), pos = 1\<rparr>)"
    unfolding a by (simp add: va)
  from float_continuous [OF nb lb db, of sample_math ?rz]
  have B: "float_js sample_math ?b ?rz = (Inr 5, \<lparr>draws = (\<lambda>_. 0), pos = 1\<rparr>)"
    unfolding b by (simp add: vb)
  from A B show ?thesis by simp
qed

text \<open>
  With \<open>min = max\<close> the result is \<open>max\<close>, whatever the draw.
\<close>

lemma float_equal_bounds_returns_max:
  "fst (float_js sample_math (FloatOpts \<lparr>float_min = Some 5, float_max = Some 5,
      float_fractionDigits = None, float_multipleOf = None\<rparr>)
      \<lparr>draws = (\<lambda>_. 1 / 2), pos = 0\<rparr>) = Inr 5"
  by code_simp

text \<open>
  Claim C6, at the input where the code returns the upper bound: with \<open>min = 4 < max = 7\<close>,
  no \<open>multipleOf\<close>, no \<open>fractionDigits\<close> and the draw \<open>1 - 2\<^sup>-\<^sup>5\<^sup>3\<close>, the largest double
  below 1, \<open>float\<close> takes that one draw, the product with \<open>max - min = 3\<close> rounds to
  \<open>3 - 2\<^sup>-\<^sup>5\<^sup>1\<close>, the sum with \<open>min = 4\<close> is a tie that rounds to 7, and \<open>float\<close> returns
  \<open>max = 7\<close>, for every engine \<open>M\<close>.
\<close>

theorem float_max_returned_at_last_draw:
  "float_js M (FloatOpts \<lparr>float_min = Some 4, float_max = Some 7,
      float_fractionDigits = None, float_multipleOf = None\<rparr>)
      \<lparr>draws = (\<lambda>_. 1 - 1 / 2 ^ 53), pos = 0\<rparr>
     = (Inr 7, \<lparr>draws = (\<lambda>_. 1 - 1 / 2 ^ 53), pos = 1\<rparr>)
   \<and> is_double (1 - 1 / 2 ^ 53) \<and> (0::rat) \<le> 1 - 1 / 2 ^ 53 \<and> (1 - 1 / 2 ^ 53 :: rat) < 1
   \<and> (4::rat) < 7
   \<and> js_sub 7 4 = 3
   \<and> js_mul (1 - 1 / 2 ^ 53) 3 = 3 - 1 / 2 ^ 51
   \<and> js_add (3 - 1 / 2 ^ 51) 4 = 7"
proof -
  let ?a = "FloatOpts \<lparr>float_min = Some 4, float_max = Some 7,
      float_fractionDigits = None, float_multipleOf = None\<rparr>"
  let ?rz = "\<lparr>draws = (\<lambda>_. 1 - 1 / 2 ^ 53 :: rat), pos = 0\<rparr>"
  have n: "float_fractionDigits (float_normalize ?a) = None"
      "float_multipleOf (float_normalize ?a) = None"
    by (simp_all add: float_normalize_def)
  have a: "float_min_of ?a = 4" "float_max_of ?a = 7"
    by (simp_all add: float_min_of_def float_max_of_def float_normalize_def)
  have l: "float_min_of ?a \<le> float_max_of ?a" unfolding a by simp
  have d: "is_double (float_min_of ?a)" unfolding a by code_simp
  have 1: "is_double (1 - 1 / 2 ^ 53)" by code_simp
  have 2: "js_sub 7 4 = 3" by code_simp
  have 3: "js_mul (1 - 1 / 2 ^ 53) 3 = 3 - 1 / 2 ^ 51" by code_simp
  have 4: "js_add (3 - 1 / 2 ^ 51) 4 = 7" by code_simp
  from float_continuous [OF n l d, of M ?rz]
  have "float_js M ?a ?rz
      = (Inr (js_add (js_mul (1 - 1 / 2 ^ 53) (js_sub 7 4)) 4), ?rz\<lparr>pos := Suc (pos ?rz)\<rparr>)"
    unfolding a by simp
  then have "float_js M ?a ?rz = (Inr 7, \<lparr>draws = (\<lambda>_. 1 - 1 / 2 ^ 53), pos = 1\<rparr>)"
    unfolding 2 3 4 by simp
  then show ?thesis using 1 2 3 4 by simp
qed

section \<open>The inclusive bounds of int on an example\<close>

lemma double_succ:
  assumes y: "is_double y" "0 < y" and x: "is_double x" "y < x"
  shows "y + 2 powi (ilog2 y - 52) \<le> x"
proof (rule ccontr)
  assume "\<not> y + 2 powi (ilog2 y - 52) \<le> x"
  then have lt: "x < y + 2 powi (ilog2 y - 52)" by simp
  define e where "e = ilog2 y"
  define u :: rat where "u = 2 powi (e - 52)"
  from double_significand [OF y] obtain K
    where K: "2 ^ 52 \<le> K" "K < 2 ^ 53" "y = of_int K * u" unfolding e_def u_def by blast
  have upos: "0 < u" by (simp add: u_def)
  have "e + 1 = e - 52 + 53" by simp
  then have "(2::rat) powi (e + 1) = 2 powi (e - 52) * 2 powi 53"
    using power_int_add [of "2::rat" "e - 52" 53] by (simp add: add.commute)
  then have ue: "2 powi (e + 1) = 2 ^ 53 * u" unfolding u_def by simp
  have xpos: "0 < x" using y(2) x(2) by simp
  have "2 powi e \<le> y" using ilog2_bounds [OF y(2)] by (simp add: e_def)
  then have lo: "2 powi e \<le> x" using x(2) by simp
  have "K + 1 \<le> 2 ^ 53" using K(2) by simp
  then have "(of_int (K + 1) :: rat) \<le> of_int (2 ^ 53)" by (simp only: of_int_le_iff)
  then have "of_int (K + 1) * u \<le> of_int (2 ^ 53) * u" using upos by (intro mult_right_mono) simp_all
  moreover have xu: "x < of_int (K + 1) * u"
  proof -
    have "x < y + u" using lt by (simp add: u_def e_def)
    moreover have "of_int (K + 1) * u = y + u" unfolding K(3) by (simp add: algebra_simps)
    ultimately show ?thesis by simp
  qed
  ultimately have hi: "x < 2 powi (e + 1)" unfolding ue by simp
  have il: "ilog2 x = e" using xpos lo hi by (rule ilog2_unique)
  from double_significand [OF x(1) xpos] obtain K'
    where K': "x = of_int K' * u" unfolding il u_def by blast
  have "of_int K * u < of_int K' * u" using x(2) unfolding K(3) K' .
  then have "(of_int K :: rat) < of_int K'" using upos by (simp add: mult_less_cancel_right)
  then have 1: "K < K'" by (simp only: of_int_less_iff)
  have "of_int K' * u < of_int (K + 1) * u" using xu unfolding K' .
  then have "(of_int K' :: rat) < of_int (K + 1)" using upos by (simp only: mult_less_cancel_right; simp)
  then have 2: "K' < K + 1" by (simp only: of_int_less_iff)
  from 1 2 show False by simp
qed

text \<open>
  The example given with the inclusive bounds holds on the code: for every double draw in \<open>[0, 1)\<close>,
  \<open>int({min: 10, max: 100, multipleOf: 10})\<close> returns one of \<open>10, 20, ..., 100\<close>. The product
  of the draw and \<open>delta = 10\<close> stays below 10, and one more keeps it below 11.
\<close>

lemma int_example_in_range:
  assumes r: "is_double (draws rz (pos rz))" "0 \<le> draws rz (pos rz)" "draws rz (pos rz) < 1"
  shows "\<exists>k. 1 \<le> k \<and> k \<le> 10
     \<and> fst (int_js (IntOpts \<lparr>int_min = Some 10, int_max = Some 100, int_multipleOf = Some 10\<rparr>) rz)
         = Inr (of_int (10 * k))"
proof -
  let ?a = "IntOpts \<lparr>int_min = Some 10, int_max = Some 100, int_multipleOf = Some 10\<rparr>"
  let ?r = "draws rz (pos rz)"
  have a: "int_min_of ?a = 10" "int_max_of ?a = 100" "int_multipleOf_of ?a = 10"
    by (simp_all add: int_min_of_def int_max_of_def int_multipleOf_of_def int_normalize_def)
  have emin: "effectiveMin 10 10 = 1" by code_simp
  have emax: "effectiveMax 100 10 = 10" by code_simp
  have delta: "js_add (js_sub 10 1) 1 = 10" by code_simp
  have i10: "isInteger 10" by code_simp
  define x where "x = js_mul ?r 10"
  define s where "s = js_add x 1"
  define k where "k = \<lfloor>s\<rfloor>"
  have res: "fst (int_js ?a rz) = Inr (js_mul (js_floor s) 10)"
    unfolding int_js_def a Let_def emin emax delta next_draw_def s_def x_def
    using i10 by simp
  have d10: "is_double 10" by code_simp
  have xd: "is_double x" unfolding x_def js_mul_def by (rule is_double_round53)
  have x0: "0 \<le> x" unfolding x_def js_mul_def using r(2) by (intro round53_nonneg) simp
  have x10: "x < 10" unfolding x_def js_mul_def using d10 r(1) r(3)
    by (intro round53_mul_below) simp_all
  have r1: "round53 1 = 1" by code_simp
  have "round53 1 \<le> round53 (x + 1)" using x0 by (intro round53_mono) simp
  then have s1: "1 \<le> s" unfolding s_def js_add_def r1 .
  have s11: "s < 11"
  proof (cases "x < 8")
    case True
    have r9: "round53 9 = 9" by code_simp
    have "round53 (x + 1) \<le> round53 9" using True by (intro round53_mono) simp
    then show ?thesis unfolding s_def js_add_def r9 by simp
  next
    case False
    then have x8: "8 \<le> x" by simp
    then have xpos: "0 < x" by simp
    have "(2::rat) powi 3 \<le> x" using x8 by simp
    moreover have "x < 2 powi (3 + 1)" using x10 by simp
    ultimately have il: "ilog2 x = 3" using xpos by (intro ilog2_unique)
    have "x + 2 powi (ilog2 x - 52) \<le> 10" using xd xpos d10 x10 by (rule double_succ)
    then have "x + 1 / 2 ^ 49 \<le> 10" unfolding il by (simp add: power_int_minus)
    then have le: "x + 1 \<le> 11 - 1 / 2 ^ 49" by simp
    have rz: "round53 (11 - 1 / 2 ^ 49) = 11 - 1 / 2 ^ 49" by code_simp
    have "round53 (x + 1) \<le> round53 (11 - 1 / 2 ^ 49)" using le by (rule round53_mono)
    then show ?thesis unfolding s_def js_add_def rz by simp
  qed
  have k1: "1 \<le> k" unfolding k_def using s1 by (simp add: le_floor_iff)
  have "s < of_int 11" using s11 by simp
  then have "k < 11" unfolding k_def by (simp only: floor_less_iff)
  then have k10: "k \<le> 10" by simp
  have "\<bar>k * 10\<bar> < 2 ^ 53" using k1 k10 by simp
  then have "round53 (of_int (k * 10)) = of_int (k * 10)" by (rule round53_of_int)
  then have "js_mul (js_floor s) 10 = of_int (10 * k)"
    unfolding js_mul_def js_floor_def k_def [symmetric] by (simp add: mult.commute)
  with res k1 k10 show ?thesis by auto
qed

end
